theory Spec2Isabelle
  imports Complex_Main "HOL-Library.Multiset"
begin

section \<open>Data model of the job scheduler (src/main.py)\<close>

text \<open>
  Python integers are unbounded, so they are \<open>int\<close>; Python's \<open>//\<close> and \<open>%\<close> on
  integers are floor division and its remainder, which is what \<open>div\<close> and \<open>mod\<close> are on
  \<open>int\<close>. A pydantic model is a record. Exceptions are values of \<open>py_error\<close>.
\<close>

datatype py_error =
  KeyError | IndexError | ZeroDivisionError | AssertionError | RecursionError | ValueError

record job =
  job_id :: int
  job_name :: string
  duration :: int
  dependencies :: "int list"
  min_chunk_size :: int

definition FIXED_MACHINE_CAPACITY :: int where
  "FIXED_MACHINE_CAPACITY = 40"

definition NUM_MACHINES :: nat where
  "NUM_MACHINES = 3"

definition MAX_CHUNK_SIZE :: int where
  "MAX_CHUNK_SIZE = 5"

definition TOTAL_CAPACITY :: int where
  "TOTAL_CAPACITY = FIXED_MACHINE_CAPACITY * int NUM_MACHINES"

section \<open>Task decomposition\<close>

text \<open>
  The loop \<^verbatim>\<open>for i in range(n): sizes.append(base + 1 if i < remainder else base)\<close>,
  which both solvers run twice (once on the duration, once on every part that is still
  larger than the maximum chunk size). \<open>range(n)\<close> is empty for \<open>n \<le> 0\<close>.
\<close>

definition balanced_parts :: "int \<Rightarrow> int \<Rightarrow> int list" where
  "balanced_parts tot n =
     map (\<lambda>i. if int i < tot mod n then tot div n + 1 else tot div n) [0..<nat n]"

text \<open>The inner loop body: a part larger than the maximum is balanced again.\<close>

definition refine_part :: "int \<Rightarrow> int list" where
  "refine_part sz =
     (if sz > MAX_CHUNK_SIZE
      then balanced_parts sz ((sz + MAX_CHUNK_SIZE - 1) div MAX_CHUNK_SIZE)
      else [sz])"

text \<open>
  The size computation shared, line for line, by \<open>CulturalAlgorithm._create_intelligent_split\<close>
  and the splitting branch of \<open>BacktrackingSolver.solve\<close>. Dividing by a chunk count of
  zero raises in Python.
\<close>

definition final_sizes :: "int \<Rightarrow> py_error + int list" where
  "final_sizes d =
     (let num_chunks = (d + MAX_CHUNK_SIZE - 1) div MAX_CHUNK_SIZE in
      if num_chunks = 0 then Inl ZeroDivisionError
      else Inr (concat (map refine_part (balanced_parts d num_chunks))))"

text \<open>
  Both solvers decompose a job the same way: a job no longer than the maximum chunk size
  is one chunk of its duration (\<open>_create_smart_chromosome\<close>, and the \<open>else\<close> branch of
  \<open>BacktrackingSolver.solve\<close>), any other job is split.
\<close>

definition chunk_sizes :: "job \<Rightarrow> py_error + int list" where
  "chunk_sizes j =
     (if duration j \<le> MAX_CHUNK_SIZE then Inr [duration j] else final_sizes (duration j))"


section \<open>Results\<close>

text \<open>
  A tuple \<open>(job, start, end, size)\<close> of a machine's timeline, a capacity violation
  dictionary, and the pydantic models \<open>TaskChunk\<close> and \<open>ScheduleResult\<close>.
  Of \<open>ScheduleResult\<close>, \<open>execution_time\<close> (wall clock), \<open>performance_plot\<close> and
  \<open>performance_details\<close> (presentation) are left out. \<open>logs\<close> is \<open>Some\<close> of the list a
  failure result is built with; for a successful result it is the solver's running
  progress text, which is not modelled (\<open>None\<close>). Floating-point fields are exact
  rationals here.
\<close>

type_synonym placed = "job \<times> int \<times> int \<times> int"

record violation =
  v_job_id :: int
  v_job_name :: string
  v_machine :: nat
  v_chunk_size :: int
  v_exceeded_by :: int
  v_start :: int
  v_end :: int

record task_chunk =
  tc_job :: job
  tc_machine :: nat
  tc_start :: int
  tc_end :: int
  tc_chunk_id :: nat
  tc_total_chunks :: nat
  tc_size :: int

record schedule_result =
  success :: bool
  makespan :: rat
  schedule :: "task_chunk list list"
  logs :: "string list option"
  iterations :: "int option"
  splits_info :: "(int \<times> int) list"
  efficiency :: "rat option"
  total_work :: "int option"
  total_idle_time :: "rat option"
  total_machine_time :: "rat option"
  capacity_violations :: "violation list option"
  machine_loads :: "rat list option"
  error_message :: "string option"

definition create_error_result :: "string \<Rightarrow> schedule_result" where
  "create_error_result msg =
     \<lparr>success = False, makespan = 0, schedule = [], logs = Some [msg], iterations = None,
      splits_info = [], efficiency = None, total_work = None, total_idle_time = None,
      total_machine_time = None, capacity_violations = None, machine_loads = None,
      error_message = None\<rparr>"

text \<open>The log line of a capacity error starts with the UTF-8 bytes of a cross mark.\<close>

definition cross_mark :: string where
  "cross_mark = [char_of (226::nat), char_of (157::nat), char_of (140::nat)]"

definition create_capacity_error_result :: "string \<Rightarrow> schedule_result" where
  "create_capacity_error_result msg =
     \<lparr>success = False, makespan = 0, schedule = [], logs = Some [cross_mark @ '' '' @ msg],
      iterations = None, splits_info = [], efficiency = None, total_work = None,
      total_idle_time = None, total_machine_time = None, capacity_violations = None,
      machine_loads = None, error_message = Some msg\<rparr>"

text \<open>
  Python's \<open>str\<close> of an integer, which is what an f-string field \<^verbatim>\<open>{n}\<close> of an integer
  evaluates. CPython (3.11 and later, with the default
  \<^verbatim>\<open>sys.int_info.default_max_str_digits\<close>) refuses to convert an integer of more than 4300
  decimal digits, the sign not counted, and raises \<open>ValueError\<close>.
\<close>

definition MAX_STR_DIGITS :: nat where
  "MAX_STR_DIGITS = 4300"

definition digit :: "nat \<Rightarrow> char" where
  "digit n = ''0123456789'' ! n"

fun str_nat :: "nat \<Rightarrow> string" where
  "str_nat n = (if n < 10 then [digit n] else str_nat (n div 10) @ [digit (n mod 10)])"

declare str_nat.simps [simp del]

definition int_digits :: "int \<Rightarrow> nat" where
  "int_digits i = length (str_nat (nat \<bar>i\<bar>))"

definition str_int :: "int \<Rightarrow> py_error + string" where
  "str_int i =
     (if int_digits i > MAX_STR_DIGITS then Inl ValueError
      else Inr (if i < 0 then CHR ''-'' # str_nat (nat (- i)) else str_nat (nat i)))"

text \<open>
  The message of a capacity error,
  \<^verbatim>\<open>f"Job '{job.name}' ({job.duration} units) exceeds the 40-unit machine capacity limit"\<close>.
  The log line appended just before it formats the same two fields, so it raises exactly
  when the message does.
\<close>

definition capacity_message :: "job \<Rightarrow> py_error + string" where
  "capacity_message j =
     (case str_int (duration j) of
        Inl e \<Rightarrow> Inl e
      | Inr d \<Rightarrow>
          Inr (''Job '' @ [CHR 0x27] @ job_name j @ [CHR 0x27] @ '' ('' @ d
                 @ '' units) exceeds the 40-unit machine capacity limit''))"

text \<open>
  The strict capacity check of both \<open>solve\<close> methods: the first job, in input
  order, whose duration exceeds the machine capacity.
\<close>

definition capacity_check :: "job list \<Rightarrow> job option" where
  "capacity_check jobs = find (\<lambda>j. duration j > FIXED_MACHINE_CAPACITY) jobs"

text \<open>
  The log lines that open both \<open>solve\<close> methods, before the capacity check. The third,
  \<^verbatim>\<open>f"Total work: {self.total_work} units"\<close>, formats the sum of all durations (computed
  by the constructor) and so can raise; the others format the length of the job list and
  the constant 40, which are far below the conversion limit. The result is the formatted
  line without its leading pictograph.
\<close>

definition opening_log :: "job list \<Rightarrow> py_error + string" where
  "opening_log jobs =
     (case str_int (sum_list (map duration jobs)) of
        Inl e \<Rightarrow> Inl e
      | Inr w \<Rightarrow> Inr (''Total work: '' @ w @ '' units''))"

section \<open>Dictionaries\<close>

text \<open>
  A Python \<open>dict\<close> keeps insertion order, and several loops of the program iterate over
  one, so a dictionary is an association list with unique keys: assignment to a present
  key keeps its position, assignment to a new key appends.
\<close>

fun dict_set :: "('k \<times> 'v) list \<Rightarrow> 'k \<Rightarrow> 'v \<Rightarrow> ('k \<times> 'v) list" where
  "dict_set [] k v = [(k, v)]"
| "dict_set ((k', v') # kvs) k v =
     (if k' = k then (k', v) # kvs else (k', v') # dict_set kvs k v)"

text \<open>\<^verbatim>\<open>d[k] = d.get(k, 0) + 1\<close>\<close>

definition dict_incr :: "('k \<times> int) list \<Rightarrow> 'k \<Rightarrow> ('k \<times> int) list" where
  "dict_incr d k = dict_set d k ((case map_of d k of None \<Rightarrow> 0 | Some c \<Rightarrow> c) + 1)"

text \<open>\<^verbatim>\<open>if k not in d: d[k] = []\<close> followed by \<^verbatim>\<open>d[k].append(v)\<close>\<close>

definition dict_append :: "('k \<times> 'v list) list \<Rightarrow> 'k \<Rightarrow> 'v \<Rightarrow> ('k \<times> 'v list) list" where
  "dict_append d k v = dict_set d k ((case map_of d k of None \<Rightarrow> [] | Some vs \<Rightarrow> vs) @ [v])"

text \<open>\<^verbatim>\<open>{job.id: job for job in jobs}\<close>: a later job replaces an earlier one of the same id.\<close>

definition job_dict :: "job list \<Rightarrow> (int \<rightharpoonup> job)" where
  "job_dict jobs = map_of (rev (map (\<lambda>j. (job_id j, j)) jobs))"

section \<open>Dependency order\<close>

text \<open>
  The depth-first search of \<open>_topological_sort\<close>. The closure \<open>dfs\<close> mutates the three
  variables \<open>visited\<close>, \<open>temp\<close> and \<open>result\<close> of the enclosing method: they are the
  state that each call takes and returns. The first argument is the number of nested
  calls the interpreter still allows; Python raises \<open>RecursionError\<close> beyond it.
\<close>

record dfs_state =
  visited :: "int set"
  temp :: "int set"
  result :: "job list"

definition dfs_init :: dfs_state where
  "dfs_init = \<lparr>visited = {}, temp = {}, result = []\<rparr>"

text \<open>
  \<open>BacktrackingSolver._topological_sort\<close>: the dependencies are skipped when the id is
  not a job, but \<^verbatim>\<open>result.append(self.job_dict[job_id])\<close> then looks the id up
  without a default.
\<close>

fun bt_dfs :: "nat \<Rightarrow> (int \<rightharpoonup> job) \<Rightarrow> int \<Rightarrow> dfs_state \<Rightarrow> py_error + (bool \<times> dfs_state)"
  and bt_dfs_deps :: "nat \<Rightarrow> (int \<rightharpoonup> job) \<Rightarrow> int list \<Rightarrow> dfs_state \<Rightarrow> py_error + (bool \<times> dfs_state)"
where
  "bt_dfs 0 jd i st = Inl RecursionError"
| "bt_dfs (Suc n) jd i st =
     (if i \<in> temp st then Inr (False, st)
      else if i \<in> visited st then Inr (True, st)
      else
        let st1 = st\<lparr>temp := insert i (temp st)\<rparr> in
        case (case jd i of None \<Rightarrow> Inr (True, st1)
              | Some j \<Rightarrow> bt_dfs_deps n jd (dependencies j) st1) of
          Inl e \<Rightarrow> Inl e
        | Inr (False, st2) \<Rightarrow> Inr (False, st2)
        | Inr (True, st2) \<Rightarrow>
            (case jd i of
               None \<Rightarrow> Inl KeyError
             | Some j \<Rightarrow>
                 Inr (True, st2\<lparr>temp := temp st2 - {i}, visited := insert i (visited st2),
                                 result := result st2 @ [j]\<rparr>)))"
| "bt_dfs_deps n jd [] st = Inr (True, st)"
| "bt_dfs_deps n jd (d # ds) st =
     (case bt_dfs n jd d st of
        Inl e \<Rightarrow> Inl e
      | Inr (False, st') \<Rightarrow> Inr (False, st')
      | Inr (True, st') \<Rightarrow> bt_dfs_deps n jd ds st')"

text \<open>
  \<open>CulturalAlgorithm._topological_sort\<close>: an id that is not a job returns \<open>True\<close> at
  once, after it was added to \<open>temp\<close> and without being removed from it.
\<close>

fun ca_dfs :: "nat \<Rightarrow> (int \<rightharpoonup> job) \<Rightarrow> int \<Rightarrow> dfs_state \<Rightarrow> py_error + (bool \<times> dfs_state)"
  and ca_dfs_deps :: "nat \<Rightarrow> (int \<rightharpoonup> job) \<Rightarrow> int list \<Rightarrow> dfs_state \<Rightarrow> py_error + (bool \<times> dfs_state)"
where
  "ca_dfs 0 jd i st = Inl RecursionError"
| "ca_dfs (Suc n) jd i st =
     (if i \<in> temp st then Inr (False, st)
      else if i \<in> visited st then Inr (True, st)
      else
        let st1 = st\<lparr>temp := insert i (temp st)\<rparr> in
        case jd i of
          None \<Rightarrow> Inr (True, st1)
        | Some j \<Rightarrow>
            (case ca_dfs_deps n jd (dependencies j) st1 of
               Inl e \<Rightarrow> Inl e
             | Inr (False, st2) \<Rightarrow> Inr (False, st2)
             | Inr (True, st2) \<Rightarrow>
                 Inr (True, st2\<lparr>temp := temp st2 - {i}, visited := insert i (visited st2),
                                 result := result st2 @ [j]\<rparr>)))"
| "ca_dfs_deps n jd [] st = Inr (True, st)"
| "ca_dfs_deps n jd (d # ds) st =
     (case ca_dfs n jd d st of
        Inl e \<Rightarrow> Inl e
      | Inr (False, st') \<Rightarrow> Inr (False, st')
      | Inr (True, st') \<Rightarrow> ca_dfs_deps n jd ds st')"

text \<open>
  The loop \<^verbatim>\<open>for job in self.jobs: if job.id not in visited: if not dfs(job.id): return None\<close>,
  for either search; the result is \<open>None\<close> for Python's \<open>None\<close>.
\<close>

fun visit_all ::
  "(int \<Rightarrow> dfs_state \<Rightarrow> py_error + (bool \<times> dfs_state)) \<Rightarrow> job list \<Rightarrow> dfs_state
     \<Rightarrow> py_error + job list option"
where
  "visit_all dfs [] st = Inr (Some (result st))"
| "visit_all dfs (j # js) st =
     (if job_id j \<notin> visited st then
        (case dfs (job_id j) st of
           Inl e \<Rightarrow> Inl e
         | Inr (False, st') \<Rightarrow> Inr None
         | Inr (True, st') \<Rightarrow> visit_all dfs js st')
      else visit_all dfs js st)"

definition bt_topological_sort :: "nat \<Rightarrow> job list \<Rightarrow> py_error + job list option" where
  "bt_topological_sort limit jobs = visit_all (bt_dfs limit (job_dict jobs)) jobs dfs_init"

definition ca_topological_sort :: "nat \<Rightarrow> job list \<Rightarrow> py_error + job list option" where
  "ca_topological_sort limit jobs = visit_all (ca_dfs limit (job_dict jobs)) jobs dfs_init"

section \<open>The greedy list scheduler (BacktrackingSolver)\<close>

text \<open>
  The local variables \<open>machine_times\<close> and \<open>machine_schedules\<close> of \<open>solve\<close> and the
  attribute \<open>capacity_violations\<close>, which the scheduling loop updates.
\<close>

record bt_state =
  machine_times :: "int list"
  machine_schedules :: "placed list list"
  bt_violations :: "violation list"

definition bt_init :: bt_state where
  "bt_init = \<lparr>machine_times = [0, 0, 0], machine_schedules = [[], [], []], bt_violations = []\<rparr>"

text \<open>
  \<^verbatim>\<open>min(range(self.num_machines), key=lambda m: machine_times[m])\<close>: Python's \<open>min\<close>
  keeps the first of several smallest elements.
\<close>

definition min_machine :: "int list \<Rightarrow> nat" where
  "min_machine ts = fold (\<lambda>m best. if ts ! m < ts ! best then m else best) [1..<NUM_MACHINES] 0"

text \<open>
  The three nested loops that look every dependency id up in every machine timeline.
\<close>

definition earliest_start :: "job \<Rightarrow> placed list list \<Rightarrow> int" where
  "earliest_start j scheds =
     fold (\<lambda>dep_id es.
        fold (\<lambda>m_sched es.
           fold (\<lambda>(dep_job, _, dep_end, _) es.
                   if job_id dep_job = dep_id then max es dep_end else es)
             m_sched es)
          scheds es)
       (dependencies j) 0"

text \<open>
  Placing one chunk of \<open>sz\<close> units of job \<open>j\<close> not before time \<open>t\<close>: the body of the
  chunk loop, and also the \<open>else\<close> branch for a job that is not split, which is the same
  text with \<open>earliest_start\<close> for \<open>current_time\<close> and \<open>job.duration\<close> for \<open>chunk_size\<close>.
  Returns the new state and the chunk's end time.
\<close>

definition place :: "job \<Rightarrow> int \<Rightarrow> int \<Rightarrow> bt_state \<Rightarrow> bt_state \<times> int" where
  "place j t sz st =
     (let m = min_machine (machine_times st);
          start_time = max t (machine_times st ! m);
          end_time = start_time + sz;
          viols =
            (if end_time > FIXED_MACHINE_CAPACITY
             then bt_violations st @
                    [\<lparr>v_job_id = job_id j, v_job_name = job_name j, v_machine = m,
                      v_chunk_size = sz, v_exceeded_by = end_time - FIXED_MACHINE_CAPACITY,
                      v_start = start_time, v_end = end_time\<rparr>]
             else bt_violations st)
      in (\<lparr>machine_times = (machine_times st)[m := end_time],
           machine_schedules =
             (machine_schedules st)[m := machine_schedules st ! m @ [(j, start_time, end_time, sz)]],
           bt_violations = viols\<rparr>,
          end_time))"

fun place_chunks :: "job \<Rightarrow> int \<Rightarrow> int list \<Rightarrow> bt_state \<Rightarrow> bt_state" where
  "place_chunks j current_time [] st = st"
| "place_chunks j current_time (sz # szs) st =
     (case place j current_time sz st of (st', end_time) \<Rightarrow> place_chunks j end_time szs st')"

definition schedule_job :: "job \<Rightarrow> bt_state \<Rightarrow> py_error + bt_state" where
  "schedule_job j st =
     (let es = earliest_start j (machine_schedules st) in
      if duration j > MAX_CHUNK_SIZE then
        (case final_sizes (duration j) of
           Inl e \<Rightarrow> Inl e
         | Inr sizes \<Rightarrow> Inr (place_chunks j es sizes st))
      else Inr (fst (place j es (duration j) st)))"

fun schedule_jobs :: "job list \<Rightarrow> bt_state \<Rightarrow> py_error + bt_state" where
  "schedule_jobs [] st = Inr st"
| "schedule_jobs (j # js) st =
     (case schedule_job j st of Inl e \<Rightarrow> Inl e | Inr st' \<Rightarrow> schedule_jobs js st')"

text \<open>\<open>max\<close> and \<open>min\<close> of a non-empty list.\<close>

definition maximum :: "'a::linorder list \<Rightarrow> 'a" where
  "maximum xs = fold max (tl xs) (hd xs)"

definition minimum :: "'a::linorder list \<Rightarrow> 'a" where
  "minimum xs = fold min (tl xs) (hd xs)"

subsection \<open>Building the result\<close>

definition placed_size :: "placed \<Rightarrow> int" where
  "placed_size p = (case p of (_, _, _, sz) \<Rightarrow> sz)"

text \<open>
  \<open>_calc_stats\<close> and \<open>_calculate_performance_stats\<close>: efficiency in percent, idle time,
  total machine time and the load of each machine in percent of the capacity.
\<close>

definition calc_stats :: "placed list list \<Rightarrow> rat \<Rightarrow> rat \<times> rat \<times> rat \<times> rat list" where
  "calc_stats scheds mk =
     (let total_machine_time = mk * of_nat NUM_MACHINES;
          machine_work = map (\<lambda>sched. sum_list (map placed_size sched)) scheds;
          total_work_time = sum_list machine_work;
          eff = (if total_machine_time > 0
                 then of_int total_work_time / total_machine_time * 100 else 0);
          idle_time = total_machine_time - of_int total_work_time
      in (eff, idle_time, total_machine_time,
          map (\<lambda>w. of_int w / of_int FIXED_MACHINE_CAPACITY * 100) machine_work))"

text \<open>\<open>_calc_splits\<close> and \<open>_calculate_splits_info\<close>: the number of chunks of every job.\<close>

definition calc_splits :: "placed list list \<Rightarrow> (int \<times> int) list" where
  "calc_splits scheds =
     fold (\<lambda>sched splits. fold (\<lambda>(j, _, _, _) splits. dict_incr splits (job_id j)) sched splits)
       scheds []"

text \<open>
  \<open>_build_final\<close> and \<open>_build_final_schedule\<close>: the chunks are grouped by job id, each
  group is sorted and numbered from 1, and every machine's list is sorted by start time.
  The two methods differ in the sort key of a group only: the start time in
  \<open>BacktrackingSolver\<close>, the end time in \<open>CulturalAlgorithm\<close>. Python's sort is stable, as
  \<open>sort_key\<close> is.
\<close>

type_synonym raw_chunk = "nat \<times> int \<times> int \<times> job \<times> int"

definition raw_start :: "raw_chunk \<Rightarrow> int" where
  "raw_start c = (case c of (_, s, _, _, _) \<Rightarrow> s)"

definition raw_end :: "raw_chunk \<Rightarrow> int" where
  "raw_end c = (case c of (_, _, e, _, _) \<Rightarrow> e)"

definition group_chunks :: "placed list list \<Rightarrow> (int \<times> raw_chunk list) list" where
  "group_chunks scheds =
     fold (\<lambda>(m, sched) d.
        fold (\<lambda>(j, s, e, sz) d. dict_append d (job_id j) (m, s, e, j, sz)) sched d)
       (enumerate 0 scheds) []"

definition number_chunks :: "raw_chunk list \<Rightarrow> task_chunk list list \<Rightarrow> task_chunk list list" where
  "number_chunks chunks final =
     fold (\<lambda>(idx, (m, s, e, j, sz)) fin.
        fin[m := fin ! m @
          [\<lparr>tc_job = j, tc_machine = m, tc_start = s, tc_end = e, tc_chunk_id = idx + 1,
            tc_total_chunks = length chunks, tc_size = sz\<rparr>]])
       (enumerate 0 chunks) final"

definition build_final :: "(raw_chunk \<Rightarrow> int) \<Rightarrow> placed list list \<Rightarrow> task_chunk list list" where
  "build_final key scheds =
     map (sort_key tc_start)
       (fold (\<lambda>(jid, chunks) fin. number_chunks (sort_key key chunks) fin)
          (group_chunks scheds) (replicate NUM_MACHINES []))"

subsection \<open>solve\<close>

text \<open>
  \<open>BacktrackingSolver.solve\<close> from its capacity check on. \<^verbatim>\<open>if not topological\<close> holds
  for \<open>None\<close> and for the empty list. \<open>limit\<close> is the recursion depth left to the
  dependency search. The progress lines logged after the capacity check are not modelled.
\<close>

definition bt_solve :: "nat \<Rightarrow> job list \<Rightarrow> py_error + schedule_result" where
  "bt_solve limit jobs =
     (case capacity_check jobs of
        Some j \<Rightarrow>
          (case capacity_message j of
             Inl e \<Rightarrow> Inl e
           | Inr msg \<Rightarrow> Inr (create_capacity_error_result msg))
      | None \<Rightarrow>
          (case bt_topological_sort limit jobs of
             Inl e \<Rightarrow> Inl e
           | Inr None \<Rightarrow> Inr (create_error_result ''Cycle Detected'')
           | Inr (Some []) \<Rightarrow> Inr (create_error_result ''Cycle Detected'')
           | Inr (Some topological) \<Rightarrow>
               (case schedule_jobs topological bt_init of
                  Inl e \<Rightarrow> Inl e
                | Inr st \<Rightarrow>
                    let mk = maximum (machine_times st);
                        scheds = machine_schedules st
                    in case calc_stats scheds (of_int mk) of
                         (eff, idle, tm, loads) \<Rightarrow>
                           Inr \<lparr>success = True, makespan = of_int mk,
                                schedule = build_final raw_start scheds, logs = None,
                                iterations = Some 0, splits_info = calc_splits scheds,
                                efficiency = Some eff,
                                total_work = Some (sum_list (map duration jobs)),
                                total_idle_time = Some idle, total_machine_time = Some tm,
                                capacity_violations = Some (bt_violations st),
                                machine_loads = Some loads,
                                error_message = None\<rparr>)))"

text \<open>
  The whole method \<open>BacktrackingSolver.solve\<close>: the opening log lines, then the capacity
  check and the rest.
\<close>

definition backtracking_solve :: "nat \<Rightarrow> job list \<Rightarrow> py_error + schedule_result" where
  "backtracking_solve limit jobs =
     (case opening_log jobs of
        Inl e \<Rightarrow> Inl e
      | Inr _ \<Rightarrow> bt_solve limit jobs)"

section \<open>Chromosomes and the schedule evaluator (CulturalAlgorithm)\<close>

text \<open>
  A chunk descriptor \<^verbatim>\<open>{'machine': m, 'size': s, 'order': i}\<close> and a chromosome, the
  dictionary from job id to the list of the job's chunk descriptors.
\<close>

record chunk =
  chunk_machine :: nat
  chunk_size :: int
  chunk_order :: int

type_synonym chromosome = "(int \<times> chunk list) list"

text \<open>
  \<open>_create_intelligent_split\<close>. The argument \<open>machines\<close> is the list \<open>[0, 1, 2]\<close> after
  \<open>random.shuffle\<close>; the \<open>assert\<close> on the total is the \<open>AssertionError\<close> branch.
\<close>

definition create_intelligent_split :: "nat list \<Rightarrow> job \<Rightarrow> py_error + chunk list" where
  "create_intelligent_split machines j =
     (case final_sizes (duration j) of
        Inl e \<Rightarrow> Inl e
      | Inr sizes \<Rightarrow>
          let chunks = map (\<lambda>i. \<lparr>chunk_machine = machines ! (i mod NUM_MACHINES),
                                  chunk_size = sizes ! i, chunk_order = int i\<rparr>)
                         [0..<length sizes]
          in if sum_list (map chunk_size chunks) = duration j then Inr chunks
             else Inl AssertionError)"

text \<open>
  \<open>_create_smart_chromosome\<close>, with the random draws as arguments: \<open>pick j\<close> is the
  result of \<open>random.randint(0, 2)\<close> for job \<open>j\<close>, \<open>shuffled j\<close> the shuffled machine list.
\<close>

fun create_smart_chromosome ::
  "(job \<Rightarrow> nat) \<Rightarrow> (job \<Rightarrow> nat list) \<Rightarrow> job list \<Rightarrow> chromosome \<Rightarrow> py_error + chromosome"
where
  "create_smart_chromosome pick shuffled [] chrom = Inr chrom"
| "create_smart_chromosome pick shuffled (j # js) chrom =
     (if duration j \<le> MAX_CHUNK_SIZE then
        create_smart_chromosome pick shuffled js
          (dict_set chrom (job_id j)
             [\<lparr>chunk_machine = pick j, chunk_size = duration j, chunk_order = 0\<rparr>])
      else
        (case create_intelligent_split (shuffled j) j of
           Inl e \<Rightarrow> Inl e
         | Inr chunks \<Rightarrow>
             create_smart_chromosome pick shuffled js (dict_set chrom (job_id j) chunks)))"

subsection \<open>Evaluation\<close>

text \<open>
  The first loop of \<open>_evaluate_chromosome\<close>: \<open>Inr False\<close> stands for the return of
  infinite fitness, \<open>KeyError\<close> for a chromosome key that is not a job.
\<close>

fun check_chromosome :: "(int \<rightharpoonup> job) \<Rightarrow> chromosome \<Rightarrow> py_error + bool" where
  "check_chromosome jd [] = Inr True"
| "check_chromosome jd ((jid, chunks) # rest) =
     (case jd jid of
        None \<Rightarrow> Inl KeyError
      | Some j \<Rightarrow>
          if sum_list (map chunk_size chunks) \<noteq> duration j then Inr False
          else if \<exists>c \<in> set chunks. chunk_size c > MAX_CHUNK_SIZE then Inr False
          else check_chromosome jd rest)"

text \<open>The local variables of the simulation.\<close>

record eval_state =
  m_times :: "int list"
  m_scheds :: "placed list list"
  completed :: "int \<rightharpoonup> int"
  violations :: "violation list"
  loads :: "int list"

definition eval_init :: eval_state where
  "eval_init = \<lparr>m_times = replicate NUM_MACHINES 0, m_scheds = replicate NUM_MACHINES [],
                 completed = Map.empty, violations = [], loads = replicate NUM_MACHINES 0\<rparr>"

text \<open>
  The loop over \<open>job.dependencies\<close>: \<open>None\<close> when a dependency is not in \<open>completed\<close>
  (the evaluator then returns infinite fitness).
\<close>

fun dep_start :: "(int \<rightharpoonup> int) \<Rightarrow> int list \<Rightarrow> int \<Rightarrow> int option" where
  "dep_start cmpl [] t = Some t"
| "dep_start cmpl (d # ds) t =
     (case cmpl d of Some c \<Rightarrow> dep_start cmpl ds (max t c) | None \<Rightarrow> None)"

text \<open>The body of the chunk loop; a machine index outside the lists raises.\<close>

definition eval_chunk :: "job \<Rightarrow> chunk \<Rightarrow> int \<Rightarrow> eval_state \<Rightarrow> py_error + (eval_state \<times> int)" where
  "eval_chunk j c current_time st =
     (let m = chunk_machine c; sz = chunk_size c in
      if m \<ge> length (m_times st) then Inl IndexError
      else
        let chunk_start = max current_time (m_times st ! m);
            chunk_end = chunk_start + sz;
            viols =
              (if chunk_end > FIXED_MACHINE_CAPACITY
               then violations st @
                      [\<lparr>v_job_id = job_id j, v_job_name = job_name j, v_machine = m,
                        v_chunk_size = sz, v_exceeded_by = chunk_end - FIXED_MACHINE_CAPACITY,
                        v_start = chunk_start, v_end = chunk_end\<rparr>]
               else violations st)
        in Inr (st\<lparr>m_times := (m_times st)[m := chunk_end],
                   loads := (loads st)[m := loads st ! m + sz],
                   m_scheds := (m_scheds st)[m := m_scheds st ! m @ [(j, chunk_start, chunk_end, sz)]],
                   violations := viols\<rparr>,
                chunk_end))"

fun eval_chunks :: "job \<Rightarrow> int \<Rightarrow> chunk list \<Rightarrow> eval_state \<Rightarrow> py_error + (eval_state \<times> int)" where
  "eval_chunks j current_time [] st = Inr (st, current_time)"
| "eval_chunks j current_time (c # cs) st =
     (case eval_chunk j c current_time st of
        Inl e \<Rightarrow> Inl e
      | Inr (st', chunk_end) \<Rightarrow> eval_chunks j chunk_end cs st')"

text \<open>The body of the loop over \<open>order\<close>; \<open>Inr None\<close> is the return of infinite fitness.\<close>

definition eval_job :: "chromosome \<Rightarrow> job \<Rightarrow> eval_state \<Rightarrow> py_error + eval_state option" where
  "eval_job chrom j st =
     (case dep_start (completed st) (dependencies j) 0 of
        None \<Rightarrow> Inr None
      | Some start_time \<Rightarrow>
          let chunks = (case map_of chrom (job_id j) of None \<Rightarrow> [] | Some cs \<Rightarrow> cs) in
          if chunks = [] then Inr None
          else
            (case eval_chunks j start_time (sort_key chunk_order chunks) st of
               Inl e \<Rightarrow> Inl e
             | Inr (st', current_time) \<Rightarrow>
                 Inr (Some (st'\<lparr>completed := (completed st')(job_id j \<mapsto> current_time)\<rparr>))))"

fun eval_jobs :: "chromosome \<Rightarrow> job list \<Rightarrow> eval_state \<Rightarrow> py_error + eval_state option" where
  "eval_jobs chrom [] st = Inr (Some st)"
| "eval_jobs chrom (j # js) st =
     (case eval_job chrom j st of
        Inl e \<Rightarrow> Inl e
      | Inr None \<Rightarrow> Inr None
      | Inr (Some st') \<Rightarrow> eval_jobs chrom js st')"

text \<open>
  The fitness of a finished simulation. Python computes it in double precision; the
  model computes the same expression, in the same order, in exact rational arithmetic
  (\<open>0.4\<close> is \<open>2/5\<close>, \<open>0.2\<close> is \<open>1/5\<close>), so rounding is not modelled.
\<close>

definition fitness_of :: "eval_state \<Rightarrow> rat" where
  "fitness_of st =
     (let mk = maximum (m_times st);
          violation_penalty = int (length (violations st)) * 10;
          total_machine_time = mk * int NUM_MACHINES;
          total_work = sum_list (map (\<lambda>sched. sum_list (map placed_size sched)) (m_scheds st));
          eff = (if total_machine_time > 0
                 then rat_of_int total_work / rat_of_int total_machine_time else 0);
          penalty = (1 - eff) * rat_of_int mk * (4 / 10);
          machine_utilization =
            map (\<lambda>(m, m_sched). rat_of_int (sum_list (map placed_size m_sched))
                                   / rat_of_int (max 1 (m_times st ! m)))
              (enumerate 0 (m_scheds st));
          load_balance_penalty =
            (maximum machine_utilization - minimum machine_utilization) * rat_of_int mk * (2 / 10)
      in rat_of_int mk + penalty + load_balance_penalty + rat_of_int violation_penalty)"

text \<open>
  \<open>_evaluate_chromosome\<close>: \<open>Inr None\<close> is the result \<^verbatim>\<open>(float('inf'), [], [])\<close>.
\<close>

definition evaluate_chromosome ::
  "(int \<rightharpoonup> job) \<Rightarrow> chromosome \<Rightarrow> job list
     \<Rightarrow> py_error + (rat \<times> placed list list \<times> violation list) option"
where
  "evaluate_chromosome jd chrom ordr =
     (case check_chromosome jd chrom of
        Inl e \<Rightarrow> Inl e
      | Inr False \<Rightarrow> Inr None
      | Inr True \<Rightarrow>
          (case eval_jobs chrom ordr eval_init of
             Inl e \<Rightarrow> Inl e
           | Inr None \<Rightarrow> Inr None
           | Inr (Some st) \<Rightarrow> Inr (Some (fitness_of st, m_scheds st, violations st))))"

text \<open>
  The fitness as the specification words it, for comparison with \<open>fitness_of\<close>:
  efficiency is the total work divided by three times the makespan, and the utilization
  of a machine is its assigned work divided by its busy time. A quotient by zero has no
  value (Python raises \<open>ZeroDivisionError\<close> for it), so the result is optional.
\<close>

definition quotient :: "rat \<Rightarrow> rat \<Rightarrow> rat option" where
  "quotient a b = (if b = 0 then None else Some (a / b))"

definition spec_fitness :: "eval_state \<Rightarrow> rat option" where
  "spec_fitness st =
     (let mk = maximum (m_times st);
          total_work = sum_list (map (\<lambda>sched. sum_list (map placed_size sched)) (m_scheds st))
      in case quotient (rat_of_int total_work) (rat_of_int (mk * int NUM_MACHINES)) of
           None \<Rightarrow> None
         | Some eff \<Rightarrow>
             (case those (map (\<lambda>(m, m_sched).
                            quotient (rat_of_int (sum_list (map placed_size m_sched)))
                              (rat_of_int (m_times st ! m)))
                          (enumerate 0 (m_scheds st))) of
                None \<Rightarrow> None
              | Some utilization \<Rightarrow>
                  Some (rat_of_int mk + (1 - eff) * rat_of_int mk * (4 / 10)
                        + (maximum utilization - minimum utilization) * rat_of_int mk * (2 / 10)
                        + 10 * rat_of_nat (length (violations st)))))"

section \<open>The belief space\<close>

text \<open>
  A fitness is a Python float that may be \<open>float('inf')\<close>. \<open>BeliefSpace.update\<close> only
  compares fitness values, so it is modelled for any linear order \<open>'f\<close>.
\<close>

datatype pyfloat = Finite rat | Infinity

instantiation pyfloat :: linorder
begin

fun less_eq_pyfloat :: "pyfloat \<Rightarrow> pyfloat \<Rightarrow> bool" where
  "less_eq_pyfloat (Finite a) (Finite b) = (a \<le> b)"
| "less_eq_pyfloat Infinity (Finite b) = False"
| "less_eq_pyfloat x Infinity = True"

definition less_pyfloat :: "pyfloat \<Rightarrow> pyfloat \<Rightarrow> bool" where
  "less_pyfloat x y = (x \<le> y \<and> \<not> y \<le> x)"

instance
proof
  fix x y z :: pyfloat
  show "(x < y) = (x \<le> y \<and> \<not> y \<le> x)" by (simp add: less_pyfloat_def)
  show "x \<le> x" by (cases x) simp_all
  show "x \<le> y \<Longrightarrow> y \<le> z \<Longrightarrow> x \<le> z" by (cases x; cases y; cases z) simp_all
  show "x \<le> y \<Longrightarrow> y \<le> x \<Longrightarrow> x = y" by (cases x; cases y) simp_all
  show "x \<le> y \<or> y \<le> x" by (cases x; cases y) auto
qed

end

type_synonym 'f scored = "'f \<times> chromosome \<times> placed list list \<times> violation list"

record 'f belief_space =
  num_machines :: nat
  global_best_chromosome :: "chromosome option"
  global_best_fitness :: 'f
  global_best_schedule :: "placed list list option"
  machine_reputation :: "(int \<times> (nat \<times> int) list) list"
  capacity_violations_history :: "violation list"

definition belief_init :: "pyfloat belief_space" where
  "belief_init =
     \<lparr>num_machines = NUM_MACHINES, global_best_chromosome = None,
      global_best_fitness = Infinity, global_best_schedule = None, machine_reputation = [],
      capacity_violations_history = []\<rparr>"

text \<open>
  The reputation loop for one entry of a chromosome: the job's score dictionary is
  created when absent, then one count is added for every chunk's machine.
\<close>

definition reinforce_job ::
  "(int \<times> (nat \<times> int) list) list \<Rightarrow> int \<times> chunk list \<Rightarrow> (int \<times> (nat \<times> int) list) list"
where
  "reinforce_job rep entry =
     (case entry of (jid, chunks) \<Rightarrow>
        dict_set rep jid
          (fold (\<lambda>c scores. dict_incr scores (chunk_machine c)) chunks
             (case map_of rep jid of None \<Rightarrow> [] | Some scores \<Rightarrow> scores)))"

definition reinforce ::
  "'f scored \<Rightarrow> (int \<times> (nat \<times> int) list) list \<Rightarrow> (int \<times> (nat \<times> int) list) list"
where
  "reinforce ind rep = (case ind of (_, chrom, _, _) \<Rightarrow> fold (\<lambda>entry r. reinforce_job r entry) chrom rep)"

text \<open>The individuals \<open>update\<close> accepts: the head of the population sorted by fitness.\<close>

definition accepted_individuals :: "('f::linorder) scored list \<Rightarrow> 'f scored list" where
  "accepted_individuals population_fitness_list =
     (let sorted_pop = sort_key fst population_fitness_list;
          acceptance_count = max 1 (length sorted_pop div 5)
      in take acceptance_count sorted_pop)"

text \<open>
  \<open>BeliefSpace.update\<close>. \<^verbatim>\<open>accepted_individuals[0]\<close> raises on an empty population.
  The deep copy of the chromosome is the chromosome itself, values being immutable here.
\<close>

definition update ::
  "('f::linorder) belief_space \<Rightarrow> 'f scored list \<Rightarrow> py_error + 'f belief_space"
where
  "update b population_fitness_list =
     (case accepted_individuals population_fitness_list of
        [] \<Rightarrow> Inl IndexError
      | current_best # others \<Rightarrow>
          (case current_best of (f, chrom, sched, viols) \<Rightarrow>
             let b1 = (if f < global_best_fitness b
                       then b\<lparr>global_best_fitness := f, global_best_chromosome := Some chrom,
                              global_best_schedule := Some sched,
                              capacity_violations_history := viols\<rparr>
                       else b)
             in Inr (b1\<lparr>machine_reputation :=
                          fold reinforce (current_best # others) (machine_reputation b1)\<rparr>)))"

text \<open>
  Successive calls of \<open>update\<close> on one belief space, as the loop over the generations
  makes them; an exception ends the run.
\<close>

fun update_seq ::
  "('f::linorder) belief_space \<Rightarrow> 'f scored list list \<Rightarrow> py_error + 'f belief_space"
where
  "update_seq b [] = Inr b"
| "update_seq b (pop # pops) =
     (case update b pop of Inl e \<Rightarrow> Inl e | Inr b' \<Rightarrow> update_seq b' pops)"

text \<open>
  Reading the reputation: the counter of machine \<open>m\<close> for job \<open>jid\<close> (0 when absent),
  and the number of chunks an individual places on machine \<open>m\<close> for job \<open>jid\<close>.
\<close>

definition reputation :: "(int \<times> (nat \<times> int) list) list \<Rightarrow> int \<Rightarrow> nat \<Rightarrow> int" where
  "reputation rep jid m =
     (case map_of rep jid of
        None \<Rightarrow> 0
      | Some scores \<Rightarrow> (case map_of scores m of None \<Rightarrow> 0 | Some c \<Rightarrow> c))"

definition chunk_count :: "'f scored \<Rightarrow> int \<Rightarrow> nat \<Rightarrow> int" where
  "chunk_count ind jid m =
     (case ind of (_, chrom, _, _) \<Rightarrow>
        sum_list (map (\<lambda>(k, chunks).
                    if k = jid then int (length (filter (\<lambda>c. chunk_machine c = m) chunks)) else 0)
                  chrom))"

section \<open>The cultural algorithm\<close>

text \<open>
  The evaluation loop of one generation: the chromosomes with finite fitness, scored.
\<close>

fun score_population ::
  "(int \<rightharpoonup> job) \<Rightarrow> job list \<Rightarrow> chromosome list \<Rightarrow> py_error + pyfloat scored list"
where
  "score_population jd ordr [] = Inr []"
| "score_population jd ordr (chrom # rest) =
     (case evaluate_chromosome jd chrom ordr of
        Inl e \<Rightarrow> Inl e
      | Inr r \<Rightarrow>
          (case score_population jd ordr rest of
             Inl e \<Rightarrow> Inl e
           | Inr scores \<Rightarrow>
               Inr (case r of
                      None \<Rightarrow> scores
                    | Some (f, sched, viols) \<Rightarrow> (Finite f, chrom, sched, viols) # scores)))"

text \<open>
  The loop over the generations. Selection, crossover and mutation draw from Python's
  random generator; their joint outcome is the argument \<open>breed\<close>, which gives the next
  population from the number of generations left, the belief space and the scored
  population. A generation without a feasible chromosome is skipped (\<open>continue\<close>).
  The list \<open>history\<close>, which only the plot reads, is left out.
\<close>

fun ca_generations ::
  "nat \<Rightarrow> (nat \<Rightarrow> pyfloat belief_space \<Rightarrow> pyfloat scored list \<Rightarrow> chromosome list)
     \<Rightarrow> (int \<rightharpoonup> job) \<Rightarrow> job list \<Rightarrow> chromosome list \<Rightarrow> pyfloat belief_space
     \<Rightarrow> py_error + pyfloat belief_space"
where
  "ca_generations 0 breed jd ordr population b = Inr b"
| "ca_generations (Suc g) breed jd ordr population b =
     (case score_population jd ordr population of
        Inl e \<Rightarrow> Inl e
      | Inr [] \<Rightarrow> ca_generations g breed jd ordr population b
      | Inr fitness_scores \<Rightarrow>
          (case update b fitness_scores of
             Inl e \<Rightarrow> Inl e
           | Inr b' \<Rightarrow> ca_generations g breed jd ordr (breed g b' fitness_scores) b'))"

definition GENERATIONS :: nat where
  "GENERATIONS = 100"

text \<open>
  The end of \<open>CulturalAlgorithm.solve\<close>: the result built from the belief space.
  \<^verbatim>\<open>if best_schedule and best_makespan < float('inf')\<close> fails for \<open>None\<close>, for an empty
  list and for an infinite fitness.
\<close>

definition ca_finalize :: "job list \<Rightarrow> pyfloat belief_space \<Rightarrow> schedule_result" where
  "ca_finalize jobs b =
     (case (global_best_schedule b, global_best_fitness b) of
        (Some (m # ms), Finite best_makespan) \<Rightarrow>
          (case calc_stats (m # ms) best_makespan of
             (eff, idle, tm, ld) \<Rightarrow>
               \<lparr>success = True, makespan = best_makespan,
                schedule = build_final raw_end (m # ms), logs = None,
                iterations = None, splits_info = calc_splits (m # ms),
                efficiency = Some eff,
                total_work = Some (sum_list (map duration jobs)),
                total_idle_time = Some idle, total_machine_time = Some tm,
                capacity_violations = Some (capacity_violations_history b),
                machine_loads = Some ld,
                error_message = None\<rparr>)
      | _ \<Rightarrow> create_error_result ''No valid solution found'')"

text \<open>
  The initial population: one chromosome from \<open>_create_smart_chromosome\<close> for every
  index of the list; \<open>pick k\<close> and \<open>shuffled k\<close> are the random draws of the \<open>k\<close>-th.
\<close>

definition POPULATION_SIZE :: nat where
  "POPULATION_SIZE = 60"

fun init_population ::
  "(nat \<Rightarrow> job \<Rightarrow> nat) \<Rightarrow> (nat \<Rightarrow> job \<Rightarrow> nat list) \<Rightarrow> job list \<Rightarrow> nat list
     \<Rightarrow> py_error + chromosome list"
where
  "init_population pick shuffled ordr [] = Inr []"
| "init_population pick shuffled ordr (k # ks) =
     (case create_smart_chromosome (pick k) (shuffled k) ordr [] of
        Inl e \<Rightarrow> Inl e
      | Inr chrom \<Rightarrow>
          (case init_population pick shuffled ordr ks of
             Inl e \<Rightarrow> Inl e
           | Inr rest \<Rightarrow> Inr (chrom # rest)))"

text \<open>
  \<open>CulturalAlgorithm.solve\<close> from its capacity check on. \<^verbatim>\<open>if not topological_order\<close>
  holds for \<open>None\<close> and for the empty list.
\<close>

definition ca_solve ::
  "nat \<Rightarrow> (nat \<Rightarrow> job \<Rightarrow> nat) \<Rightarrow> (nat \<Rightarrow> job \<Rightarrow> nat list)
     \<Rightarrow> (nat \<Rightarrow> pyfloat belief_space \<Rightarrow> pyfloat scored list \<Rightarrow> chromosome list)
     \<Rightarrow> job list \<Rightarrow> py_error + schedule_result"
where
  "ca_solve limit pick shuffled breed jobs =
     (case capacity_check jobs of
        Some j \<Rightarrow>
          (case capacity_message j of
             Inl e \<Rightarrow> Inl e
           | Inr msg \<Rightarrow> Inr (create_capacity_error_result msg))
      | None \<Rightarrow>
          (case ca_topological_sort limit jobs of
             Inl e \<Rightarrow> Inl e
           | Inr None \<Rightarrow> Inr (create_error_result ''Cyclic dependencies detected!'')
           | Inr (Some []) \<Rightarrow> Inr (create_error_result ''Cyclic dependencies detected!'')
           | Inr (Some topological_order) \<Rightarrow>
               (case init_population pick shuffled topological_order [0..<POPULATION_SIZE] of
                  Inl e \<Rightarrow> Inl e
                | Inr population \<Rightarrow>
                    (case ca_generations GENERATIONS breed (job_dict jobs) topological_order
                            population belief_init of
                       Inl e \<Rightarrow> Inl e
                     | Inr b \<Rightarrow> Inr (ca_finalize jobs b)))))"

text \<open>
  The whole method \<open>CulturalAlgorithm.solve\<close>: the opening log lines, then the capacity
  check and the rest.
\<close>

definition cultural_solve ::
  "nat \<Rightarrow> (nat \<Rightarrow> job \<Rightarrow> nat) \<Rightarrow> (nat \<Rightarrow> job \<Rightarrow> nat list)
     \<Rightarrow> (nat \<Rightarrow> pyfloat belief_space \<Rightarrow> pyfloat scored list \<Rightarrow> chromosome list)
     \<Rightarrow> job list \<Rightarrow> py_error + schedule_result"
where
  "cultural_solve limit pick shuffled breed jobs =
     (case opening_log jobs of
        Inl e \<Rightarrow> Inl e
      | Inr _ \<Rightarrow> ca_solve limit pick shuffled breed jobs)"

section \<open>Notions for the statements about schedules\<close>

text \<open>
  The start and end time of an entry of a machine timeline, all entries of a list of
  timelines, and the entries of the job with a given id in one timeline.
\<close>

definition placed_start :: "placed \<Rightarrow> int" where
  "placed_start p = (case p of (_, s, _, _) \<Rightarrow> s)"

definition placed_end :: "placed \<Rightarrow> int" where
  "placed_end p = (case p of (_, _, e, _) \<Rightarrow> e)"

definition entries :: "placed list list \<Rightarrow> placed set" where
  "entries scheds = \<Union> (set ` set scheds)"

definition chunks_of :: "int \<Rightarrow> placed list \<Rightarrow> placed list" where
  "chunks_of i sched = filter (\<lambda>p. job_id (fst p) = i) sched"

text \<open>
  A placement \<open>(machine, start, end, size)\<close> of one chunk. A sequence of placements is
  chained from time \<open>t\<close> when its first chunk starts at \<open>t\<close> or later, every other chunk
  starts at the end of the chunk before it or later, and every chunk ends its size after
  its start. \<open>on_machine j m ps\<close> are the timeline entries of job \<open>j\<close> that the placements
  \<open>ps\<close> give machine \<open>m\<close>, in their order.
\<close>

type_synonym placement = "nat \<times> int \<times> int \<times> int"

fun chained :: "int \<Rightarrow> placement list \<Rightarrow> bool" where
  "chained t [] = True"
| "chained t ((m, s, e, z) # ps) = (t \<le> s \<and> e = s + z \<and> chained e ps)"

definition on_machine :: "job \<Rightarrow> nat \<Rightarrow> placement list \<Rightarrow> placed list" where
  "on_machine j m ps = map (\<lambda>(_, s, e, z). (j, s, e, z)) (filter (\<lambda>p. fst p = m) ps)"

text \<open>
  The chunks of every job of \<open>ordr\<close> form a chained sequence, of which each machine's
  timeline holds its part in order, and the timelines hold nothing else.
\<close>

definition chained_jobs :: "job list \<Rightarrow> placed list list \<Rightarrow> bool" where
  "chained_jobs ordr scheds =
     ((\<forall>j \<in> set ordr. \<exists>t ps. chained t ps
          \<and> (\<forall>m < length scheds. chunks_of (job_id j) (scheds ! m) = on_machine j m ps))
      \<and> (\<forall>q \<in> entries scheds. fst q \<in> set ordr))"

text \<open>
  No chunk starts before the end of any chunk of a job its own job depends on.
\<close>

definition after_dependencies :: "placed list list \<Rightarrow> bool" where
  "after_dependencies scheds =
     (\<forall>p \<in> entries scheds. \<forall>q \<in> entries scheds.
        job_id (fst q) \<in> set (dependencies (fst p)) \<longrightarrow> placed_end q \<le> placed_start p)"

text \<open>
  A chromosome whose chunk lists are single chunks or have no negative size, as all
  chunk lists that \<open>_create_smart_chromosome\<close> and \<open>_create_intelligent_split\<close> build.
\<close>

definition steady_chunks :: "chunk list \<Rightarrow> bool" where
  "steady_chunks cs = (length cs \<le> 1 \<or> (\<forall>c \<in> set cs. 0 \<le> chunk_size c))"

definition steady_chromosome :: "chromosome \<Rightarrow> bool" where
  "steady_chromosome chrom = (\<forall>(i, cs) \<in> set chrom. steady_chunks cs)"

text \<open>
  Every job of the list has its dependencies among the ids \<open>P\<close> and the jobs before it.
\<close>

fun ordered_after :: "int set \<Rightarrow> job list \<Rightarrow> bool" where
  "ordered_after P [] = True"
| "ordered_after P (j # js) =
     (set (dependencies j) \<subseteq> P \<and> ordered_after (insert (job_id j) P) js)"

text \<open>
  The common shape of both scheduling loops: the jobs are taken in order, and each adds
  a chained sequence of placements to the timelines. With \<open>strict\<close>, moreover, the
  sequence starts after every chunk of the job's dependencies, which are among the
  jobs \<open>P\<close> placed earlier, and is a single chunk or has no negative size.
\<close>

definition steady :: "placement list \<Rightarrow> bool" where
  "steady ps = (length ps \<le> 1 \<or> (\<forall>p \<in> set ps. 0 \<le> snd (snd (snd p))))"

inductive run :: "bool \<Rightarrow> int set \<Rightarrow> job list \<Rightarrow> placed list list \<Rightarrow> placed list list \<Rightarrow> bool" where
  run_Nil: "run strict P [] s s"
| run_Cons:
    "chained t ps \<Longrightarrow>
     (strict \<Longrightarrow> steady ps \<and> set (dependencies j) \<subseteq> P
        \<and> (\<forall>q \<in> entries s. job_id (fst q) \<in> set (dependencies j) \<longrightarrow> placed_end q \<le> t)) \<Longrightarrow>
     length s1 = length s \<Longrightarrow>
     (\<forall>m < length s. s1 ! m = s ! m @ on_machine j m ps) \<Longrightarrow>
     run strict (insert (job_id j) P) js s1 s' \<Longrightarrow>
     run strict P (j # js) s s'"

text \<open>
  The invariant of the depth-first search: \<open>result\<close> lists the visited ids, each once,
  and no visited id is in progress.
\<close>

definition dfs_inv :: "dfs_state \<Rightarrow> bool" where
  "dfs_inv st =
     (job_id ` set (result st) = visited st \<and> distinct (map job_id (result st))
      \<and> visited st \<inter> temp st = {})"

section \<open>Verification: task decomposition\<close>

lemma part_le_max:
  fixes d n :: int
  assumes "0 < n" "d \<le> 5 * n"
  shows "d div n \<le> 5"
proof -
  have "d div n \<le> (5 * n) div n" using assms by (intro zdiv_mono1) auto
  then show ?thesis using assms by simp
qed

lemma part_succ_le_max:
  fixes d n :: int
  assumes "0 < n" "d \<le> 5 * n" "0 < d mod n"
  shows "d div n + 1 \<le> 5"
proof (rule ccontr)
  assume "\<not> d div n + 1 \<le> 5"
  then have "5 \<le> d div n" by simp
  then have "n * 5 \<le> n * (d div n)" using assms(1) by (intro mult_left_mono) auto
  moreover have "d = n * (d div n) + d mod n" by simp
  ultimately show False using assms by linarith
qed

lemma map_if_less_replicate:
  "k \<le> m \<Longrightarrow> map (\<lambda>i. if i < k then a else b) [0..<m] = replicate k a @ replicate (m - k) b"
  by (rule nth_equalityI) (auto simp: nth_append)

lemma balanced_parts_replicate:
  assumes "0 < n"
  shows "balanced_parts d n = replicate (nat (d mod n)) (d div n + 1) @ replicate (nat (n - d mod n)) (d div n)"
proof -
  have r: "0 \<le> d mod n" "d mod n < n" using assms by simp_all
  have eq: "(\<lambda>i. if int i < d mod n then d div n + 1 else d div n) = (\<lambda>i. if i < nat (d mod n) then d div n + 1 else d div n)"
    using r by (auto simp: fun_eq_iff)
  have "nat (d mod n) \<le> nat n" using r by simp
  from map_if_less_replicate[OF this, of "d div n + 1" "d div n"]
  show ?thesis unfolding balanced_parts_def eq using r by (simp add: nat_diff_distrib)
qed

lemma refine_part_small: "sz \<le> 5 \<Longrightarrow> refine_part sz = [sz]"
  by (simp add: refine_part_def MAX_CHUNK_SIZE_def)

lemma concat_map_singletons: "(\<And>x. x \<in> set xs \<Longrightarrow> f x = [x]) \<Longrightarrow> concat (map f xs) = xs"
  by (induction xs) auto

lemma num_chunks_props:
  fixes d :: int
  assumes "0 < d"
  shows "0 < (d + 4) div 5" "d \<le> 5 * ((d + 4) div 5)" "(d + 4) div 5 = \<lceil>rat_of_int d / 5\<rceil>"
proof -
  show "0 < (d + 4) div 5" using assms by linarith
  show "d \<le> 5 * ((d + 4) div 5)" by linarith
  show "(d + 4) div 5 = \<lceil>rat_of_int d / 5\<rceil>"
  proof -
    have "\<lceil>rat_of_int d / 5\<rceil> = \<lceil>rat_of_int d / rat_of_int 5\<rceil>" by simp
    also have "\<dots> = - (- d div 5)" by (rule ceiling_divide_eq_div)
    also have "\<dots> = (d + 4) div 5" by presburger
    finally show ?thesis by simp
  qed
qed

lemma final_sizes_balanced:
  assumes "0 < d"
  shows "final_sizes d = Inr (balanced_parts d ((d + 4) div 5))"
    and "\<forall>s \<in> set (balanced_parts d ((d + 4) div 5)). s \<le> 5"
proof -
  let ?n = "(d + 4) div 5"
  have n: "0 < ?n" "d \<le> 5 * ?n" using num_chunks_props[OF assms] by simp_all
  show small: "\<forall>s \<in> set (balanced_parts d ?n). s \<le> 5"
    using part_le_max[OF n] part_succ_le_max[OF n]
    by (auto simp: balanced_parts_def)
  have "concat (map refine_part (balanced_parts d ?n)) = balanced_parts d ?n"
    by (rule concat_map_singletons) (use small refine_part_small in blast)
  then show "final_sizes d = Inr (balanced_parts d ?n)"
    using n by (simp add: final_sizes_def MAX_CHUNK_SIZE_def Let_def add.commute)
qed

text \<open>
  Claim C2. A job of positive duration \<open>d\<close> is decomposed, by both solvers, into exactly
  \<open>\<lceil>d / 5\<rceil>\<close> chunk sizes whose sum is \<open>d\<close>: the first \<open>d mod \<lceil>d / 5\<rceil>\<close> sizes are
  one unit larger than the others, none exceeds the maximum chunk size 5, and a job of
  duration at most 5 is a single chunk of its duration. The second balancing pass never
  changes a size. (Duration 12 gives \<open>[4, 4, 4]\<close>.) These are the sizes the greedy
  scheduler places, and the sizes of the chunks that \<open>_create_intelligent_split\<close> and
  \<open>_create_smart_chromosome\<close> return, the assertion on their sum never failing.
\<close>

theorem chunk_sizes_balanced:
  assumes "0 < duration j"
  shows "let d = duration j;
             n = \<lceil>rat_of_int d / 5\<rceil>;
             sizes = replicate (nat (d mod n)) (d div n + 1) @ replicate (nat (n - d mod n)) (d div n)
         in chunk_sizes j = Inr sizes \<and> final_sizes d = Inr sizes
            \<and> int (length sizes) = n \<and> sum_list sizes = d
            \<and> (\<forall>s \<in> set sizes. s \<le> MAX_CHUNK_SIZE)
            \<and> (d \<le> MAX_CHUNK_SIZE \<longrightarrow> sizes = [d])
            \<and> schedule_job j st
                = Inr (place_chunks j (earliest_start j (machine_schedules st)) sizes st)
            \<and> (\<exists>chunks. create_intelligent_split machines j = Inr chunks
                   \<and> map chunk_size chunks = sizes)
            \<and> (\<exists>chunks. create_smart_chromosome pick shuffled [j] [] = Inr [(job_id j, chunks)]
                   \<and> map chunk_size chunks = sizes)"
proof -
  define d where "d = duration j"
  define n where "n = (d + 4) div 5"
  define sizes where
    "sizes = replicate (nat (d mod n)) (d div n + 1) @ replicate (nat (n - d mod n)) (d div n)"
  have d: "0 < d" using assms by (simp add: d_def)
  have n: "0 < n" "d \<le> 5 * n" and ceil: "\<lceil>rat_of_int d / 5\<rceil> = n"
    using num_chunks_props[OF d] by (simp_all add: n_def)
  have r: "0 \<le> d mod n" "d mod n < n" using n by simp_all
  have bal: "balanced_parts d n = sizes"
    unfolding sizes_def by (rule balanced_parts_replicate[OF n(1)])
  have fin: "final_sizes d = Inr sizes"
    using final_sizes_balanced(1)[OF d] bal by (simp add: n_def)
  have small: "\<forall>s \<in> set sizes. s \<le> MAX_CHUNK_SIZE"
    using final_sizes_balanced(2)[OF d] bal by (simp add: n_def MAX_CHUNK_SIZE_def)
  have len: "int (length sizes) = n" using r by (simp add: sizes_def)
  have "sum_list sizes = (d mod n) * (d div n + 1) + (n - d mod n) * (d div n)"
    using r by (simp add: sizes_def sum_list_replicate)
  also have "\<dots> = n * (d div n) + d mod n" by (simp add: algebra_simps)
  also have "\<dots> = d" by simp
  finally have total: "sum_list sizes = d" .
  have single: "sizes = [d]" if "d \<le> MAX_CHUNK_SIZE"
  proof -
    have "n = 1" using that d by (simp add: n_def MAX_CHUNK_SIZE_def)
    then show ?thesis by (simp add: sizes_def)
  qed
  have cs: "chunk_sizes j = Inr sizes"
    using fin single by (simp add: chunk_sizes_def d_def)
  have greedy: "schedule_job j st
      = Inr (place_chunks j (earliest_start j (machine_schedules st)) sizes st)"
    using fin single by (simp add: schedule_job_def d_def Let_def split_beta)
  have split: "create_intelligent_split ms j
      = Inr (map (\<lambda>i. \<lparr>chunk_machine = ms ! (i mod NUM_MACHINES), chunk_size = sizes ! i,
                           chunk_order = int i\<rparr>) [0..<length sizes])"
    and sz: "map chunk_size (map (\<lambda>i. \<lparr>chunk_machine = ms ! (i mod NUM_MACHINES),
                           chunk_size = sizes ! i, chunk_order = int i\<rparr>) [0..<length sizes]) = sizes"
    for ms
  proof -
    show sz: "map chunk_size (map (\<lambda>i. \<lparr>chunk_machine = ms ! (i mod NUM_MACHINES),
                           chunk_size = sizes ! i, chunk_order = int i\<rparr>) [0..<length sizes]) = sizes"
      by (simp add: comp_def map_nth)
    show "create_intelligent_split ms j
      = Inr (map (\<lambda>i. \<lparr>chunk_machine = ms ! (i mod NUM_MACHINES), chunk_size = sizes ! i,
                           chunk_order = int i\<rparr>) [0..<length sizes])"
      unfolding create_intelligent_split_def d_def[symmetric] fin
      using total sz by (simp add: Let_def)
  qed
  have smart: "\<exists>chunks. create_smart_chromosome pick shuffled [j] [] = Inr [(job_id j, chunks)]
                   \<and> map chunk_size chunks = sizes"
  proof (cases "d \<le> MAX_CHUNK_SIZE")
    case True
    then show ?thesis using single by (simp add: d_def)
  next
    case False
    then show ?thesis using split[of "shuffled j"] sz[of "shuffled j"]
      by (simp add: d_def del: map_map)
  qed
  have isplit: "\<exists>chunks. create_intelligent_split machines j = Inr chunks
                   \<and> map chunk_size chunks = sizes"
    using split[of machines] sz[of machines] by blast
  show ?thesis
    unfolding Let_def d_def[symmetric] ceil sizes_def[symmetric]
    using cs fin len total small single greedy isplit smart by blast
qed

theorem chunk_sizes_balanced_witness:
  "chunk_sizes \<lparr>job_id = 1, job_name = ''A'', duration = 12, dependencies = [], min_chunk_size = 1\<rparr>
     = Inr [4, 4, 4]
   \<and> chunk_sizes \<lparr>job_id = 2, job_name = ''B'', duration = 3, dependencies = [], min_chunk_size = 1\<rparr>
     = Inr [3]"
proof -
  have c12: "\<lceil>(12::rat) / 5\<rceil> = 3" and c3: "\<lceil>(3::rat) / 5\<rceil> = 1"
    by (rule ceiling_unique; simp)+
  show ?thesis
    using chunk_sizes_balanced [of "\<lparr>job_id = 1, job_name = ''A'', duration = 12, dependencies = [], min_chunk_size = 1\<rparr>"]
      chunk_sizes_balanced [of "\<lparr>job_id = 2, job_name = ''B'', duration = 3, dependencies = [], min_chunk_size = 1\<rparr>"]
    by (simp add: Let_def c12 c3 numeral_eq_Suc)
qed

section \<open>Verification: the capacity check\<close>


lemma str_nat_times_10: "0 < n \<Longrightarrow> str_nat (10 * n) = str_nat n @ [digit 0]"
  by (subst str_nat.simps) simp

lemma length_str_nat_power: "length (str_nat (10 ^ k)) = Suc k"
proof (induction k)
  case 0
  show ?case by (simp add: str_nat.simps)
next
  case (Suc k)
  have "str_nat (10 ^ Suc k) = str_nat (10 ^ k) @ [digit 0]"
    using str_nat_times_10[of "10 ^ k"] by simp
  then show ?case using Suc by simp
qed

lemma int_digits_power: "int_digits (10 ^ k) = Suc k"
  by (simp add: int_digits_def nat_power_eq length_str_nat_power)

lemma str_int_Inl: "int_digits i > MAX_STR_DIGITS \<Longrightarrow> str_int i = Inl ValueError"
  by (simp add: str_int_def)




lemma solve_unprintable:
  assumes "int_digits (sum_list (map duration jobs)) > MAX_STR_DIGITS"
  shows "backtracking_solve limit jobs = Inl ValueError"
    and "cultural_solve limit pick shuffled breed jobs = Inl ValueError"
  using str_int_Inl[OF assms]
  by (simp_all add: backtracking_solve_def cultural_solve_def opening_log_def)

lemma oversized_job:
  assumes "MAX_STR_DIGITS \<le> k"
  shows "backtracking_solve limit
           [\<lparr>job_id = 1, job_name = ''huge'', duration = 10 ^ k, dependencies = [],
             min_chunk_size = 1\<rparr>] = Inl ValueError"
    and "cultural_solve limit pick shuffled breed
           [\<lparr>job_id = 1, job_name = ''huge'', duration = 10 ^ k, dependencies = [],
             min_chunk_size = 1\<rparr>] = Inl ValueError"
proof -
  let ?jobs = "[\<lparr>job_id = 1, job_name = ''huge'', duration = 10 ^ k, dependencies = [],
                 min_chunk_size = 1\<rparr>]"
  have "int_digits (sum_list (map duration ?jobs)) = Suc k"
    using int_digits_power[of k] by simp
  then have big: "int_digits (sum_list (map duration ?jobs)) > MAX_STR_DIGITS"
    using assms by simp
  show "backtracking_solve limit ?jobs = Inl ValueError"
    by (rule solve_unprintable(1)[OF big])
  show "cultural_solve limit pick shuffled breed ?jobs = Inl ValueError"
    by (rule solve_unprintable(2)[OF big])
qed



text \<open>
  One job whose duration is \<open>10 ^ 4300\<close>, the smallest integer of 4301 digits: both solvers
  raise \<open>ValueError\<close> in the opening log line and build no result.
\<close>

theorem oversized_duration_counterexample:
  "backtracking_solve 1000
     [\<lparr>job_id = 1, job_name = ''huge'', duration = 10 ^ 4300, dependencies = [],
       min_chunk_size = 1\<rparr>] = Inl ValueError
   \<and> (\<forall>pick shuffled breed. cultural_solve 1000 pick shuffled breed
     [\<lparr>job_id = 1, job_name = ''huge'', duration = 10 ^ 4300, dependencies = [],
       min_chunk_size = 1\<rparr>] = Inl ValueError)"
proof -
  have b: "MAX_STR_DIGITS \<le> 4300" by (simp add: MAX_STR_DIGITS_def)
  show ?thesis
    by (rule conjI, rule oversized_job(1)[OF b], intro allI, rule oversized_job(2)[OF b])
qed

section \<open>Verification: the belief space\<close>

lemma map_of_dict_set: "map_of (dict_set d k v) = (map_of d)(k \<mapsto> v)"
  by (induction d) (auto simp: fun_eq_iff)

lemma score_dict_incr:
  "(case map_of (dict_incr s k) m of None \<Rightarrow> 0 | Some c \<Rightarrow> c)
     = (case map_of s m of None \<Rightarrow> 0 | Some c \<Rightarrow> c) + (if k = m then 1 else 0)"
  by (simp add: dict_incr_def map_of_dict_set)

lemma score_fold_incr:
  "(case map_of (fold (\<lambda>c s. dict_incr s (chunk_machine c)) chunks s0) m of None \<Rightarrow> 0 | Some c \<Rightarrow> c)
     = (case map_of s0 m of None \<Rightarrow> 0 | Some c \<Rightarrow> c)
       + int (length (filter (\<lambda>c. chunk_machine c = m) chunks))"
proof (induction chunks arbitrary: s0)
  case Nil
  then show ?case by simp
next
  case (Cons c cs)
  show ?case by (simp add: Cons.IH score_dict_incr)
qed

lemma reputation_reinforce_job:
  "reputation (reinforce_job rep (jid, chunks)) j m
     = reputation rep j m
       + (if jid = j then int (length (filter (\<lambda>c. chunk_machine c = m) chunks)) else 0)"
  by (auto simp: reputation_def reinforce_job_def map_of_dict_set score_fold_incr split: option.splits)

lemma reputation_fold_reinforce_job:
  "reputation (fold (\<lambda>entry r. reinforce_job r entry) chrom rep) j m
     = reputation rep j m
       + sum_list (map (\<lambda>(k, chunks).
            if k = j then int (length (filter (\<lambda>c. chunk_machine c = m) chunks)) else 0) chrom)"
proof (induction chrom arbitrary: rep)
  case Nil
  then show ?case by simp
next
  case (Cons e es)
  obtain k chunks where e: "e = (k, chunks)" by (cases e)
  show ?case by (simp add: Cons.IH e reputation_reinforce_job)
qed

lemma reputation_reinforce:
  "reputation (reinforce ind rep) j m = reputation rep j m + chunk_count ind j m"
  by (cases ind) (simp add: reinforce_def chunk_count_def reputation_fold_reinforce_job)

lemma reputation_fold_reinforce:
  "reputation (fold reinforce inds rep) j m
     = reputation rep j m + sum_list (map (\<lambda>ind. chunk_count ind j m) inds)"
  by (induction inds arbitrary: rep) (simp_all add: reputation_reinforce)

lemma sort_key_nonempty: "pop \<noteq> [] \<Longrightarrow> sort_key f pop \<noteq> []"
proof -
  assume "pop \<noteq> []"
  then have "length (sort_key f pop) \<noteq> 0" by simp
  then show ?thesis by fastforce
qed

lemma length_accepted:
  "pop \<noteq> [] \<Longrightarrow> length (accepted_individuals pop) = max 1 (length pop div 5)"
  by (cases pop) (auto simp: accepted_individuals_def Let_def min_def max_def)

lemma accepted_nonempty: "pop \<noteq> [] \<Longrightarrow> accepted_individuals pop \<noteq> []"
  using length_accepted[of pop] by fastforce

lemma hd_sort_key_Min:
  assumes "pop \<noteq> []"
  shows "fst (hd (sort_key fst pop)) = Min (fst ` set pop)"
proof -
  let ?s = "sort_key fst pop"
  have ne: "?s \<noteq> []" using assms by (rule sort_key_nonempty)
  have srt: "sorted (map fst ?s)" by (rule sorted_sort_key)
  have "hd ?s \<in> set ?s" using ne by (rule hd_in_set)
  then have hin: "hd ?s \<in> set pop" by simp
  then have mem: "fst (hd ?s) \<in> fst ` set pop" by (rule imageI)
  have le: "fst (hd ?s) \<le> y" if "y \<in> fst ` set pop" for y
  proof -
    from that have "y \<in> set (map fst ?s)" by simp
    moreover have "map fst ?s = fst (hd ?s) # map fst (tl ?s)" using ne by (cases ?s) simp_all
    ultimately show ?thesis using srt by (metis order_refl set_ConsD sorted_simps(2))
  qed
  show ?thesis
    by (rule sym, rule Min_eqI) (use mem le in auto)
qed

lemma hd_accepted:
  assumes "pop \<noteq> []"
  shows "hd (accepted_individuals pop) = hd (sort_key fst pop)"
proof -
  have "sort_key fst pop \<noteq> []" using assms by (rule sort_key_nonempty)
  then show ?thesis by (cases "sort_key fst pop") (simp_all add: accepted_individuals_def Let_def max_def)
qed

lemma update_Inr:
  assumes "pop \<noteq> []"
  shows "update b pop =
     Inr ((if fst (hd (sort_key fst pop)) < global_best_fitness b
           then b\<lparr>global_best_fitness := fst (hd (sort_key fst pop)),
                  global_best_chromosome := Some (fst (snd (hd (sort_key fst pop)))),
                  global_best_schedule := Some (fst (snd (snd (hd (sort_key fst pop))))),
                  capacity_violations_history := snd (snd (snd (hd (sort_key fst pop))))\<rparr>
           else b)
          \<lparr>machine_reputation := fold reinforce (accepted_individuals pop) (machine_reputation b)\<rparr>)"
proof -
  obtain a as where acc: "accepted_individuals pop = a # as"
    using accepted_nonempty[OF assms] by (cases "accepted_individuals pop") auto
  obtain f c s v where a: "a = (f, c, s, v)" by (cases a)
  have hd: "hd (sort_key fst pop) = (f, c, s, v)" using hd_accepted[OF assms] acc a by simp
  show ?thesis unfolding hd by (simp add: update_def acc a Let_def)
qed

lemma update_fitness_le:
  "update b pop = Inr b' \<Longrightarrow> global_best_fitness b' \<le> global_best_fitness b"
proof -
  assume u: "update b pop = Inr b'"
  have "pop \<noteq> []" using u by (auto simp: update_def accepted_individuals_def)
  from update_Inr[OF this, of b] u show ?thesis by (auto split: if_splits)
qed

lemma update_seq_fitness_le:
  "update_seq b pops = Inr b' \<Longrightarrow> global_best_fitness b' \<le> global_best_fitness b"
proof (induction pops arbitrary: b)
  case Nil
  then show ?case by simp
next
  case (Cons p ps)
  then obtain b1 where b1: "update b p = Inr b1" "update_seq b1 ps = Inr b'"
    by (auto split: sum.splits)
  from Cons.IH[OF b1(2)] update_fitness_le[OF b1(1)] show ?case by simp
qed

text \<open>
  Claim C7. A call of \<open>update\<close> on a non-empty scored population returns, and leaves as
  global best fitness the minimum of the previous value and the lowest fitness of the
  population; the stored best chromosome, schedule and violation list are replaced (by
  those of an individual of lowest fitness) exactly when that fitness is strictly
  smaller than the stored one, and are unchanged otherwise. Over any sequence of calls
  the global best fitness never increases.
\<close>

theorem update_monotonic:
  "(pop \<noteq> [] \<longrightarrow>
      (\<exists>b'. update b pop = Inr b'
         \<and> global_best_fitness b' = min (global_best_fitness b) (Min (fst ` set pop))
         \<and> (if Min (fst ` set pop) < global_best_fitness b
            then \<exists>chrom sched viols. (Min (fst ` set pop), chrom, sched, viols) \<in> set pop
                   \<and> global_best_chromosome b' = Some chrom
                   \<and> global_best_schedule b' = Some sched
                   \<and> capacity_violations_history b' = viols
            else global_best_chromosome b' = global_best_chromosome b
                   \<and> global_best_schedule b' = global_best_schedule b
                   \<and> capacity_violations_history b' = capacity_violations_history b)))
   \<and> (\<forall>b'. update_seq b pops = Inr b' \<longrightarrow> global_best_fitness b' \<le> global_best_fitness b)"
proof (intro conjI impI allI)
  fix b' assume "update_seq b pops = Inr b'"
  then show "global_best_fitness b' \<le> global_best_fitness b" by (rule update_seq_fitness_le)
next
  assume ne: "pop \<noteq> []"
  let ?h = "hd (sort_key fst pop)"
  have mn: "fst ?h = Min (fst ` set pop)" by (rule hd_sort_key_Min[OF ne])
  have "?h \<in> set (sort_key fst pop)" using sort_key_nonempty[OF ne] by (rule hd_in_set)
  then have hin: "?h \<in> set pop" by simp
  obtain f chrom sched viols where h: "?h = (f, chrom, sched, viols)" by (cases ?h)
  have f: "f = Min (fst ` set pop)" using mn h by simp
  show "\<exists>b'. update b pop = Inr b'
         \<and> global_best_fitness b' = min (global_best_fitness b) (Min (fst ` set pop))
         \<and> (if Min (fst ` set pop) < global_best_fitness b
            then \<exists>chrom sched viols. (Min (fst ` set pop), chrom, sched, viols) \<in> set pop
                   \<and> global_best_chromosome b' = Some chrom
                   \<and> global_best_schedule b' = Some sched
                   \<and> capacity_violations_history b' = viols
            else global_best_chromosome b' = global_best_chromosome b
                   \<and> global_best_schedule b' = global_best_schedule b
                   \<and> capacity_violations_history b' = capacity_violations_history b)"
    unfolding update_Inr[OF ne] using hin h f by (auto simp: min_def)
qed

theorem update_monotonic_witness:
  "update \<lparr>num_machines = 3, global_best_chromosome = None, global_best_fitness = (7::rat),
           global_best_schedule = None, machine_reputation = [], capacity_violations_history = []\<rparr>
     [(9, [], [], []), (4, [], [[]], [])]
   = Inr \<lparr>num_machines = 3, global_best_chromosome = Some [], global_best_fitness = 4,
          global_best_schedule = Some [[]], machine_reputation = [], capacity_violations_history = []\<rparr>"
proof -
  let ?b = "\<lparr>num_machines = 3, global_best_chromosome = None, global_best_fitness = (7::rat),
           global_best_schedule = None, machine_reputation = [], capacity_violations_history = []\<rparr>"
  let ?pop = "[(9::rat, [], [], []), (4, [], [[]], [])] :: rat scored list"
  from update_monotonic[of ?pop ?b "[]"]
  obtain b' where b': "update ?b ?pop = Inr b'"
    "global_best_fitness b' = min (global_best_fitness ?b) (Min (fst ` set ?pop))" by auto
  have "update ?b ?pop = Inr \<lparr>num_machines = 3, global_best_chromosome = Some [], global_best_fitness = 4,
          global_best_schedule = Some [[]], machine_reputation = [], capacity_violations_history = []\<rparr>"
    by (simp add: update_def accepted_individuals_def reinforce_def)
  with b' show ?thesis by simp
qed

lemma sorted_take_drop_le:
  assumes "sorted (map f s)"
  shows "\<forall>a \<in> set (take k s). \<forall>r \<in> set (drop k s). f a \<le> f r"
proof -
  have "sorted (map f (take k s) @ map f (drop k s))"
    using assms by (simp flip: map_append)
  then show ?thesis by (auto simp: sorted_append)
qed

text \<open>
  Claim C8, as the code has it. For a scored population of size \<open>n > 0\<close>, \<open>update\<close>
  accepts exactly \<open>max 1 (n div 5)\<close> individuals (the quotient rounded down, not up): the
  head of the population sorted by ascending fitness, so no accepted individual has a
  larger fitness than one that is not accepted. Every reputation counter grows by the
  number of chunks that the accepted individuals place on that machine for that job,
  and by nothing else.
\<close>

theorem update_accepts_fifth:
  assumes "pop \<noteq> []"
  shows "\<exists>b'. update b pop = Inr b'
           \<and> length (accepted_individuals pop) = max 1 (length pop div 5)
           \<and> accepted_individuals pop = take (max 1 (length pop div 5)) (sort_key fst pop)
           \<and> mset (sort_key fst pop) = mset pop
           \<and> sorted (map fst (sort_key fst pop))
           \<and> (\<forall>a \<in> set (accepted_individuals pop).
                \<forall>r \<in> set (drop (max 1 (length pop div 5)) (sort_key fst pop)). fst a \<le> fst r)
           \<and> (\<forall>jid m. reputation (machine_reputation b') jid m
                = reputation (machine_reputation b) jid m
                  + sum_list (map (\<lambda>ind. chunk_count ind jid m) (accepted_individuals pop)))"
proof -
  have acc: "accepted_individuals pop = take (max 1 (length pop div 5)) (sort_key fst pop)"
    by (simp add: accepted_individuals_def Let_def)
  have srt: "sorted (map fst (sort_key fst pop))" by (rule sorted_sort_key)
  show ?thesis
    unfolding update_Inr[OF assms]
    using length_accepted[OF assms] acc srt sorted_take_drop_le[OF srt, of "max 1 (length pop div 5)"]
    by (simp add: reputation_fold_reinforce)
qed

theorem update_accepts_fifth_witness:
  "\<exists>b'. update \<lparr>num_machines = 3, global_best_chromosome = None, global_best_fitness = (7::rat),
           global_best_schedule = None, machine_reputation = [], capacity_violations_history = []\<rparr>
          [(3::rat, [(1, [\<lparr>chunk_machine = 0, chunk_size = 3, chunk_order = 0\<rparr>])], [], []),
           (1, [(1, [\<lparr>chunk_machine = 1, chunk_size = 3, chunk_order = 0\<rparr>])], [], []),
           (2, [(1, [\<lparr>chunk_machine = 2, chunk_size = 3, chunk_order = 0\<rparr>])], [], []),
           (6, [(1, [\<lparr>chunk_machine = 0, chunk_size = 3, chunk_order = 0\<rparr>])], [], []),
           (5, [(1, [\<lparr>chunk_machine = 0, chunk_size = 3, chunk_order = 0\<rparr>])], [], []),
           (4, [(1, [\<lparr>chunk_machine = 0, chunk_size = 3, chunk_order = 0\<rparr>])], [], [])] = Inr b'
     \<and> reputation (machine_reputation b') 1 1 = 1
     \<and> reputation (machine_reputation b') 1 2 = 0
     \<and> reputation (machine_reputation b') 1 0 = 0"
proof -
  let ?pop = "[(3::rat, [(1, [\<lparr>chunk_machine = 0, chunk_size = 3, chunk_order = 0\<rparr>])], [], []),
           (1, [(1, [\<lparr>chunk_machine = 1, chunk_size = 3, chunk_order = 0\<rparr>])], [], []),
           (2, [(1, [\<lparr>chunk_machine = 2, chunk_size = 3, chunk_order = 0\<rparr>])], [], []),
           (6, [(1, [\<lparr>chunk_machine = 0, chunk_size = 3, chunk_order = 0\<rparr>])], [], []),
           (5, [(1, [\<lparr>chunk_machine = 0, chunk_size = 3, chunk_order = 0\<rparr>])], [], []),
           (4, [(1, [\<lparr>chunk_machine = 0, chunk_size = 3, chunk_order = 0\<rparr>])], [], [])] :: rat scored list"
  have acc: "accepted_individuals ?pop
      = [(1, [(1, [\<lparr>chunk_machine = 1, chunk_size = 3, chunk_order = 0\<rparr>])], [], [])]"
    by (simp add: accepted_individuals_def)
  have ne: "?pop \<noteq> []" by simp
  let ?b = "\<lparr>num_machines = 3, global_best_chromosome = None, global_best_fitness = (7::rat),
           global_best_schedule = None, machine_reputation = [], capacity_violations_history = []\<rparr>"
  from update_accepts_fifth[OF ne, of ?b]
  obtain b' where u: "update ?b ?pop = Inr b'"
    and rep: "\<And>jid m. reputation (machine_reputation b') jid m
                = reputation (machine_reputation ?b) jid m
                  + sum_list (map (\<lambda>ind. chunk_count ind jid m) (accepted_individuals ?pop))"
    by blast
  have zero: "reputation (machine_reputation ?b) jid m = 0" for jid m
    by (simp add: reputation_def)
  have "reputation (machine_reputation b') 1 1 = 1" "reputation (machine_reputation b') 1 2 = 0"
    "reputation (machine_reputation b') 1 0 = 0"
    unfolding rep zero acc by (simp_all add: chunk_count_def)
  with u show ?thesis by blast
qed

text \<open>
  With six individuals the rounded-up fifth is 2, but one individual is accepted.
\<close>

theorem update_ceiling_counterexample:
  "\<not> (int (length (accepted_individuals
          [(3::rat, [(1, [\<lparr>chunk_machine = 0, chunk_size = 3, chunk_order = 0\<rparr>])], [], []),
           (1, [(1, [\<lparr>chunk_machine = 1, chunk_size = 3, chunk_order = 0\<rparr>])], [], []),
           (2, [(1, [\<lparr>chunk_machine = 2, chunk_size = 3, chunk_order = 0\<rparr>])], [], []),
           (6, [(1, [\<lparr>chunk_machine = 0, chunk_size = 3, chunk_order = 0\<rparr>])], [], []),
           (5, [(1, [\<lparr>chunk_machine = 0, chunk_size = 3, chunk_order = 0\<rparr>])], [], []),
           (4, [(1, [\<lparr>chunk_machine = 0, chunk_size = 3, chunk_order = 0\<rparr>])], [], [])]))
        = max 1 \<lceil>(6::rat) / 5\<rceil>)"
proof -
  have c: "\<lceil>(6::rat) / 5\<rceil> = 2" by (rule ceiling_unique; simp)
  show ?thesis unfolding c by (simp add: accepted_individuals_def)
qed

section \<open>Verification: the greedy scheduler on three independent jobs\<close>

lemma upt_3: "[1..<3] = [1, 2]" "[0..<3] = [0,1,2]" "[0..<2] = [0,1]" "[0..<1] = [0]"
  by (simp_all add: upt_rec)

lemma min_machine_3:
  "min_machine [a, b, c] = (if b < a then (if c < b then 2 else 1) else (if c < a then 2 else 0))"
  by (simp add: min_machine_def NUM_MACHINES_def upt_rec)

lemma final_sizes_10: "final_sizes 10 = Inr [5, 5]"
  by (simp add: final_sizes_def balanced_parts_def refine_part_def MAX_CHUNK_SIZE_def upt_rec)

lemma bt_three_jobs_aux:
  assumes d: "job_id j1 \<noteq> job_id j2" "job_id j1 \<noteq> job_id j3" "job_id j2 \<noteq> job_id j3"
    and dur: "duration j1 = 10" "duration j2 = 10" "duration j3 = 10"
    and deps: "dependencies j1 = []" "dependencies j2 = []" "dependencies j3 = []"
  shows "bt_topological_sort (Suc n) [j1, j2, j3] = Inr (Some [j1, j2, j3])"
  and "schedule_jobs [j1, j2, j3] bt_init = Inr \<lparr>machine_times = [15, 10, 10],
      machine_schedules = [[(j1, 0, 5, 5), (j2, 5, 10, 5), (j3, 10, 15, 5)], [(j1, 5, 10, 5)], [(j2, 0, 5, 5), (j3, 5, 10, 5)]],
      bt_violations = []\<rparr>"
proof -
  have d': "job_id j2 \<noteq> job_id j1" "job_id j3 \<noteq> job_id j1" "job_id j3 \<noteq> job_id j2" using d by auto
  show "bt_topological_sort (Suc n) [j1, j2, j3] = Inr (Some [j1, j2, j3])"
    using d d' deps by (simp add: bt_topological_sort_def job_dict_def dfs_init_def)
  show "schedule_jobs [j1, j2, j3] bt_init = Inr \<lparr>machine_times = [15, 10, 10],
      machine_schedules = [[(j1, 0, 5, 5), (j2, 5, 10, 5), (j3, 10, 15, 5)], [(j1, 5, 10, 5)], [(j2, 0, 5, 5), (j3, 5, 10, 5)]],
      bt_violations = []\<rparr>"
    using dur deps
    by (simp add: schedule_job_def final_sizes_10 place_def min_machine_3 earliest_start_def bt_init_def
        MAX_CHUNK_SIZE_def FIXED_MACHINE_CAPACITY_def)
qed

lemma build_three:
  assumes d: "job_id j1 \<noteq> job_id j2" "job_id j1 \<noteq> job_id j3" "job_id j2 \<noteq> job_id j3"
  shows "build_final raw_start [[(j1, 0, 5, 5), (j2, 5, 10, 5), (j3, 10, 15, 5)], [(j1, 5, 10, 5)], [(j2, 0, 5, 5), (j3, 5, 10, 5)]]
    = [[\<lparr>tc_job = j1, tc_machine = 0, tc_start = 0, tc_end = 5, tc_chunk_id = 1, tc_total_chunks = 2, tc_size = 5\<rparr>,
        \<lparr>tc_job = j2, tc_machine = 0, tc_start = 5, tc_end = 10, tc_chunk_id = 2, tc_total_chunks = 2, tc_size = 5\<rparr>,
        \<lparr>tc_job = j3, tc_machine = 0, tc_start = 10, tc_end = 15, tc_chunk_id = 2, tc_total_chunks = 2, tc_size = 5\<rparr>],
       [\<lparr>tc_job = j1, tc_machine = 1, tc_start = 5, tc_end = 10, tc_chunk_id = 2, tc_total_chunks = 2, tc_size = 5\<rparr>],
       [\<lparr>tc_job = j2, tc_machine = 2, tc_start = 0, tc_end = 5, tc_chunk_id = 1, tc_total_chunks = 2, tc_size = 5\<rparr>,
        \<lparr>tc_job = j3, tc_machine = 2, tc_start = 5, tc_end = 10, tc_chunk_id = 1, tc_total_chunks = 2, tc_size = 5\<rparr>]]"
  and "calc_splits [[(j1, 0, 5, 5), (j2, 5, 10, 5), (j3, 10, 15, 5)], [(j1, 5, 10, 5)], [(j2, 0, 5, 5), (j3, 5, 10, 5)]]
    = [(job_id j1, 2), (job_id j2, 2), (job_id j3, 2)]"
proof -
  have d': "job_id j2 \<noteq> job_id j1" "job_id j3 \<noteq> job_id j1" "job_id j3 \<noteq> job_id j2" using d by auto
  show "calc_splits [[(j1, 0, 5, 5), (j2, 5, 10, 5), (j3, 10, 15, 5)], [(j1, 5, 10, 5)], [(j2, 0, 5, 5), (j3, 5, 10, 5)]]
    = [(job_id j1, 2), (job_id j2, 2), (job_id j3, 2)]"
    using d d' by (simp add: calc_splits_def dict_incr_def)
  show "build_final raw_start [[(j1, 0, 5, 5), (j2, 5, 10, 5), (j3, 10, 15, 5)], [(j1, 5, 10, 5)], [(j2, 0, 5, 5), (j3, 5, 10, 5)]]
    = [[\<lparr>tc_job = j1, tc_machine = 0, tc_start = 0, tc_end = 5, tc_chunk_id = 1, tc_total_chunks = 2, tc_size = 5\<rparr>,
        \<lparr>tc_job = j2, tc_machine = 0, tc_start = 5, tc_end = 10, tc_chunk_id = 2, tc_total_chunks = 2, tc_size = 5\<rparr>,
        \<lparr>tc_job = j3, tc_machine = 0, tc_start = 10, tc_end = 15, tc_chunk_id = 2, tc_total_chunks = 2, tc_size = 5\<rparr>],
       [\<lparr>tc_job = j1, tc_machine = 1, tc_start = 5, tc_end = 10, tc_chunk_id = 2, tc_total_chunks = 2, tc_size = 5\<rparr>],
       [\<lparr>tc_job = j2, tc_machine = 2, tc_start = 0, tc_end = 5, tc_chunk_id = 1, tc_total_chunks = 2, tc_size = 5\<rparr>,
        \<lparr>tc_job = j3, tc_machine = 2, tc_start = 5, tc_end = 10, tc_chunk_id = 1, tc_total_chunks = 2, tc_size = 5\<rparr>]]"
    using d d' by (simp add: build_final_def group_chunks_def number_chunks_def dict_append_def
        enumerate_eq_zip upt_rec raw_start_def NUM_MACHINES_def eval_nat_numeral)
qed


lemma bt_solve_success:
  assumes "capacity_check jobs = None"
    and "bt_topological_sort limit jobs = Inr (Some (j # js))"
    and "schedule_jobs (j # js) bt_init = Inr st"
  shows "bt_solve limit jobs =
     Inr \<lparr>success = True, makespan = of_int (maximum (machine_times st)),
          schedule = build_final raw_start (machine_schedules st), logs = None,
          iterations = Some 0, splits_info = calc_splits (machine_schedules st),
          efficiency = Some (fst (calc_stats (machine_schedules st) (of_int (maximum (machine_times st))))),
          total_work = Some (sum_list (map duration jobs)),
          total_idle_time = Some (fst (snd (calc_stats (machine_schedules st) (of_int (maximum (machine_times st)))))),
          total_machine_time = Some (fst (snd (snd (calc_stats (machine_schedules st) (of_int (maximum (machine_times st))))))),
          capacity_violations = Some (bt_violations st),
          machine_loads = Some (snd (snd (snd (calc_stats (machine_schedules st) (of_int (maximum (machine_times st))))))),
          error_message = None\<rparr>"
  using assms by (simp add: bt_solve_def Let_def split_beta del: schedule_jobs.simps)

text \<open>
  Claim C1, as the code has it. Three independent jobs of duration 10 (distinct ids, no
  dependencies) exceed the maximum chunk size 5, so the greedy scheduler splits each into
  two chunks of 5 and always takes the machine that is free first: the result is
  successful, has makespan 15 (not 10), two chunks per job (not one), no capacity
  violation, and every job has its two chunks on two different machines, machine 0
  serving all three jobs.
\<close>

theorem three_jobs_schedule:
  assumes "job_id j1 \<noteq> job_id j2" "job_id j1 \<noteq> job_id j3" "job_id j2 \<noteq> job_id j3"
    and "duration j1 = 10" "duration j2 = 10" "duration j3 = 10"
    and "dependencies j1 = []" "dependencies j2 = []" "dependencies j3 = []"
  shows "\<exists>r. bt_solve (Suc n) [j1, j2, j3] = Inr r
           \<and> success r \<and> makespan r = 15
           \<and> splits_info r = [(job_id j1, 2), (job_id j2, 2), (job_id j3, 2)]
           \<and> capacity_violations r = Some []
           \<and> schedule r =
    [[\<lparr>tc_job = j1, tc_machine = 0, tc_start = 0, tc_end = 5, tc_chunk_id = 1, tc_total_chunks = 2, tc_size = 5\<rparr>,
      \<lparr>tc_job = j2, tc_machine = 0, tc_start = 5, tc_end = 10, tc_chunk_id = 2, tc_total_chunks = 2, tc_size = 5\<rparr>,
      \<lparr>tc_job = j3, tc_machine = 0, tc_start = 10, tc_end = 15, tc_chunk_id = 2, tc_total_chunks = 2, tc_size = 5\<rparr>],
     [\<lparr>tc_job = j1, tc_machine = 1, tc_start = 5, tc_end = 10, tc_chunk_id = 2, tc_total_chunks = 2, tc_size = 5\<rparr>],
     [\<lparr>tc_job = j2, tc_machine = 2, tc_start = 0, tc_end = 5, tc_chunk_id = 1, tc_total_chunks = 2, tc_size = 5\<rparr>,
      \<lparr>tc_job = j3, tc_machine = 2, tc_start = 5, tc_end = 10, tc_chunk_id = 1, tc_total_chunks = 2, tc_size = 5\<rparr>]]"
proof -
  have cap: "capacity_check [j1, j2, j3] = None"
    using assms by (simp add: capacity_check_def FIXED_MACHINE_CAPACITY_def)
  note topo = bt_three_jobs_aux(1)[OF assms, of n]
  note sched = bt_three_jobs_aux(2)[OF assms]
  note fin = build_three[OF assms(1-3)]
  show ?thesis
    unfolding bt_solve_success[OF cap topo sched]
    by (simp add: fin maximum_def)
qed

theorem three_jobs_schedule_witness:
  "\<exists>r. bt_solve 1000
         [\<lparr>job_id = 1, job_name = ''A'', duration = 10, dependencies = [], min_chunk_size = 1\<rparr>,
          \<lparr>job_id = 2, job_name = ''B'', duration = 10, dependencies = [], min_chunk_size = 1\<rparr>,
          \<lparr>job_id = 3, job_name = ''C'', duration = 10, dependencies = [], min_chunk_size = 1\<rparr>] = Inr r
       \<and> success r \<and> makespan r = 15 \<and> splits_info r = [(1, 2), (2, 2), (3, 2)]
       \<and> capacity_violations r = Some []"
proof -
  have n: "(1000::nat) = Suc 999" by simp
  show ?thesis
    unfolding n
    using three_jobs_schedule [of
        "\<lparr>job_id = 1, job_name = ''A'', duration = 10, dependencies = [], min_chunk_size = 1\<rparr>"
        "\<lparr>job_id = 2, job_name = ''B'', duration = 10, dependencies = [], min_chunk_size = 1\<rparr>"
        "\<lparr>job_id = 3, job_name = ''C'', duration = 10, dependencies = [], min_chunk_size = 1\<rparr>" 999]
    by auto
qed

text \<open>
  The claim as stated fails on the same input: the makespan is 15 and every job has two
  chunks.
\<close>

theorem three_jobs_counterexample:
  "map_sum id makespan
     (bt_solve 1000
         [\<lparr>job_id = 1, job_name = ''A'', duration = 10, dependencies = [], min_chunk_size = 1\<rparr>,
          \<lparr>job_id = 2, job_name = ''B'', duration = 10, dependencies = [], min_chunk_size = 1\<rparr>,
          \<lparr>job_id = 3, job_name = ''C'', duration = 10, dependencies = [], min_chunk_size = 1\<rparr>]) = Inr 15
   \<and> map_sum id splits_info
     (bt_solve 1000
         [\<lparr>job_id = 1, job_name = ''A'', duration = 10, dependencies = [], min_chunk_size = 1\<rparr>,
          \<lparr>job_id = 2, job_name = ''B'', duration = 10, dependencies = [], min_chunk_size = 1\<rparr>,
          \<lparr>job_id = 3, job_name = ''C'', duration = 10, dependencies = [], min_chunk_size = 1\<rparr>]) = Inr [(1, 2), (2, 2), (3, 2)]
   \<and> map_sum id success
     (bt_solve 1000
         [\<lparr>job_id = 1, job_name = ''A'', duration = 10, dependencies = [], min_chunk_size = 1\<rparr>,
          \<lparr>job_id = 2, job_name = ''B'', duration = 10, dependencies = [], min_chunk_size = 1\<rparr>,
          \<lparr>job_id = 3, job_name = ''C'', duration = 10, dependencies = [], min_chunk_size = 1\<rparr>]) = Inr True"
proof -
  have n: "(1000::nat) = Suc 999" by simp
  let ?j1 = "\<lparr>job_id = 1, job_name = ''A'', duration = 10, dependencies = [], min_chunk_size = 1\<rparr>"
  let ?j2 = "\<lparr>job_id = 2, job_name = ''B'', duration = 10, dependencies = [], min_chunk_size = 1\<rparr>"
  let ?j3 = "\<lparr>job_id = 3, job_name = ''C'', duration = 10, dependencies = [], min_chunk_size = 1\<rparr>"
  have cap: "capacity_check [?j1, ?j2, ?j3] = None"
    by (simp add: capacity_check_def FIXED_MACHINE_CAPACITY_def)
  have topo: "bt_topological_sort (Suc 999) [?j1, ?j2, ?j3] = Inr (Some [?j1, ?j2, ?j3])"
    by (rule bt_three_jobs_aux(1)) simp_all
  have sched: "schedule_jobs [?j1, ?j2, ?j3] bt_init = Inr \<lparr>machine_times = [15, 10, 10],
      machine_schedules = [[(?j1, 0, 5, 5), (?j2, 5, 10, 5), (?j3, 10, 15, 5)], [(?j1, 5, 10, 5)], [(?j2, 0, 5, 5), (?j3, 5, 10, 5)]],
      bt_violations = []\<rparr>"
    by (rule bt_three_jobs_aux(2)) simp_all
  have splits: "calc_splits [[(?j1, 0, 5, 5), (?j2, 5, 10, 5), (?j3, 10, 15, 5)], [(?j1, 5, 10, 5)], [(?j2, 0, 5, 5), (?j3, 5, 10, 5)]]
      = [(job_id ?j1, 2), (job_id ?j2, 2), (job_id ?j3, 2)]"
    by (rule build_three(2)) simp_all
  show ?thesis
    unfolding n bt_solve_success[OF cap topo sched]
    by (simp add: splits maximum_def)
qed

section \<open>Verification: dependency ids that are not jobs\<close>

lemma job_dict_absent: "d \<notin> job_id ` set jobs \<Longrightarrow> job_dict jobs d = None"
  by (simp add: job_dict_def map_of_eq_None_iff image_image)

lemma job_dict_present:
  assumes "distinct (map job_id jobs)" "j \<in> set jobs"
  shows "job_dict jobs (job_id j) = Some j"
proof -
  have "distinct (map fst (rev (map (\<lambda>j. (job_id j, j)) jobs)))"
    using assms(1) by (simp add: rev_map[symmetric] comp_def distinct_rev)
  moreover have "(job_id j, j) \<in> set (rev (map (\<lambda>j. (job_id j, j)) jobs))"
    using assms(2) by auto
  ultimately show ?thesis unfolding job_dict_def by (rule map_of_is_SomeI)
qed

lemma capacity_check_None:
  "\<forall>j \<in> set jobs. duration j \<le> FIXED_MACHINE_CAPACITY \<Longrightarrow> capacity_check jobs = None"
  by (auto simp: capacity_check_def find_None_iff)

text \<open>
  Claim C6 fails on the code: \<open>BacktrackingSolver.solve\<close> raises \<open>KeyError\<close> instead of
  returning a result whenever the first job (of a list with distinct ids and durations
  within the capacity) names a first dependency that is not a job, since
  \<open>_topological_sort\<close> appends \<^verbatim>\<open>self.job_dict[job_id]\<close> for the missing id.
\<close>

theorem bt_solve_raises_KeyError:
  assumes "distinct (map job_id (j # js))"
    and "\<forall>x \<in> set (j # js). duration x \<le> 40"
    and "dependencies j = d # ds"
    and "d \<notin> job_id ` set (j # js)"
  shows "bt_solve (Suc (Suc n)) (j # js) = Inl KeyError"
proof -
  let ?jd = "job_dict (j # js)"
  have cap: "capacity_check (j # js) = None"
    using assms(2) by (intro capacity_check_None) (simp add: FIXED_MACHINE_CAPACITY_def)
  have jdj: "?jd (job_id j) = Some j" by (rule job_dict_present[OF assms(1)]) simp
  have jdd: "?jd d = None" by (rule job_dict_absent[OF assms(4)])
  have ne: "d \<noteq> job_id j" using assms(4) by auto
  have inner: "bt_dfs (Suc n) ?jd d \<lparr>visited = {}, temp = {job_id j}, result = []\<rparr> = Inl KeyError"
    using ne jdd by simp
  have "bt_dfs (Suc (Suc n)) ?jd (job_id j) dfs_init = Inl KeyError"
    using jdj inner assms(3) by (simp add: dfs_init_def)
  then have "bt_topological_sort (Suc (Suc n)) (j # js) = Inl KeyError"
    by (simp add: bt_topological_sort_def dfs_init_def)
  then show ?thesis by (simp add: bt_solve_def cap)
qed

theorem bt_solve_raises_KeyError_witness:
  "bt_solve 1000 [\<lparr>job_id = 1, job_name = ''A'', duration = 5, dependencies = [99], min_chunk_size = 1\<rparr>]
     = Inl KeyError"
proof -
  have n: "(1000::nat) = Suc (Suc 998)" by simp
  show ?thesis unfolding n
    by (rule bt_solve_raises_KeyError[where d = 99 and ds = "[]"]) simp_all
qed

lemma score_population_infeasible:
  "\<forall>chrom \<in> set pop. evaluate_chromosome jd chrom ordr = Inr None \<Longrightarrow>
   score_population jd ordr pop = Inr []"
  by (induction pop) simp_all

lemma ca_generations_infeasible:
  "score_population jd ordr pop = Inr [] \<Longrightarrow> ca_generations g breed jd ordr pop b = Inr b"
  by (induction g) simp_all

lemma init_population_single:
  assumes "duration j \<le> MAX_CHUNK_SIZE"
  shows "init_population pick shuffled [j] ks
     = Inr (map (\<lambda>k. [(job_id j, [\<lparr>chunk_machine = pick k j, chunk_size = duration j, chunk_order = 0\<rparr>])]) ks)"
  using assms by (induction ks) simp_all

text \<open>
  Claim C3 fails on the code. For the single job of duration 5 that depends on the
  missing id 99, the greedy solver raises \<open>KeyError\<close>, and the cultural algorithm,
  whatever its random choices, finds every chromosome infeasible in every generation
  (the evaluator rejects a dependency that is not in \<open>completed\<close>) and returns the
  failure "No valid solution found"; without the dependency the same job is scheduled
  with makespan 5.
\<close>

theorem missing_dependency_fails:
  "bt_solve (Suc (Suc n))
      [\<lparr>job_id = 1, job_name = ''A'', duration = 5, dependencies = [99], min_chunk_size = 1\<rparr>]
     = Inl KeyError
   \<and> ca_solve (Suc (Suc n)) pick shuffled breed
      [\<lparr>job_id = 1, job_name = ''A'', duration = 5, dependencies = [99], min_chunk_size = 1\<rparr>]
     = Inr (create_error_result ''No valid solution found'')
   \<and> (\<exists>r. bt_solve (Suc (Suc n))
      [\<lparr>job_id = 1, job_name = ''A'', duration = 5, dependencies = [], min_chunk_size = 1\<rparr>] = Inr r
        \<and> success r \<and> makespan r = 5)"
proof -
  let ?J = "\<lparr>job_id = 1, job_name = ''A'', duration = 5, dependencies = [99], min_chunk_size = 1\<rparr>"
  let ?K = "\<lparr>job_id = 1, job_name = ''A'', duration = 5, dependencies = [], min_chunk_size = 1\<rparr>"
  have bt: "bt_solve (Suc (Suc n)) [?J] = Inl KeyError"
    by (simp add: bt_solve_def capacity_check_def FIXED_MACHINE_CAPACITY_def
        bt_topological_sort_def job_dict_def dfs_init_def)
  have cap: "capacity_check [?J] = None"
    by (simp add: capacity_check_def FIXED_MACHINE_CAPACITY_def)
  have topo: "ca_topological_sort (Suc (Suc n)) [?J] = Inr (Some [?J])"
    by (simp add: ca_topological_sort_def job_dict_def dfs_init_def)
  have pop: "init_population pick shuffled [?J] [0..<POPULATION_SIZE]
     = Inr (map (\<lambda>k. [(job_id ?J, [\<lparr>chunk_machine = pick k ?J, chunk_size = duration ?J, chunk_order = 0\<rparr>])])
              [0..<POPULATION_SIZE])"
    by (rule init_population_single) (simp add: MAX_CHUNK_SIZE_def)
  have ev: "evaluate_chromosome (job_dict [?J]) [(1, [\<lparr>chunk_machine = m, chunk_size = 5, chunk_order = 0\<rparr>])] [?J]
      = Inr None" for m
    by (simp add: evaluate_chromosome_def job_dict_def MAX_CHUNK_SIZE_def eval_job_def eval_init_def)
  have sc: "score_population (job_dict [?J]) [?J]
      (map (\<lambda>k. [(job_id ?J, [\<lparr>chunk_machine = pick k ?J, chunk_size = duration ?J, chunk_order = 0\<rparr>])])
              [0..<POPULATION_SIZE]) = Inr []"
    by (rule score_population_infeasible) (use ev in auto)
  have fin: "ca_finalize [?J] belief_init = create_error_result ''No valid solution found''"
    by (simp add: ca_finalize_def belief_init_def)
  have ca: "ca_solve (Suc (Suc n)) pick shuffled breed [?J] = Inr (create_error_result ''No valid solution found'')"
    by (simp add: ca_solve_def cap topo pop[simplified] ca_generations_infeasible[OF sc, simplified] fin)
  have ok: "\<exists>r. bt_solve (Suc (Suc n)) [?K] = Inr r \<and> success r \<and> makespan r = 5"
    by (simp add: bt_solve_def capacity_check_def FIXED_MACHINE_CAPACITY_def
        bt_topological_sort_def job_dict_def dfs_init_def schedule_job_def place_def min_machine_3
        earliest_start_def bt_init_def MAX_CHUNK_SIZE_def maximum_def split_beta Let_def)
  from bt ca ok show ?thesis by blast
qed

section \<open>Verification: the fitness of a schedule\<close>

lemma maximum_Max: "xs \<noteq> [] \<Longrightarrow> maximum xs = Max (set xs)"
proof (cases xs)
  case (Cons a as)
  then show ?thesis using Max.set_eq_fold[of a as] by (simp add: maximum_def)
qed simp

lemma minimum_Min: "xs \<noteq> [] \<Longrightarrow> minimum xs = Min (set xs)"
proof (cases xs)
  case (Cons a as)
  then show ?thesis using Min.set_eq_fold[of a as] by (simp add: minimum_def)
qed simp

lemma eval_chunk_lengths:
  "eval_chunk j c t st = Inr (st', t') \<Longrightarrow>
   length (m_times st') = length (m_times st) \<and> length (m_scheds st') = length (m_scheds st)"
  by (auto simp: eval_chunk_def Let_def split: if_splits)

lemma eval_chunks_lengths:
  "eval_chunks j t cs st = Inr (st', t') \<Longrightarrow>
   length (m_times st') = length (m_times st) \<and> length (m_scheds st') = length (m_scheds st)"
proof (induction cs arbitrary: t st)
  case Nil
  then show ?case by simp
next
  case (Cons c cs)
  from Cons.prems obtain st1 t1 where 1: "eval_chunk j c t st = Inr (st1, t1)"
    and 2: "eval_chunks j t1 cs st1 = Inr (st', t')"
    by (auto split: sum.splits)
  from eval_chunk_lengths[OF 1] Cons.IH[OF 2] show ?case by simp
qed

lemma eval_job_lengths:
  "eval_job chrom j st = Inr (Some st') \<Longrightarrow>
   length (m_times st') = length (m_times st) \<and> length (m_scheds st') = length (m_scheds st)"
  by (auto simp: eval_job_def Let_def split: option.splits if_splits sum.splits dest: eval_chunks_lengths)

lemma eval_jobs_lengths:
  "eval_jobs chrom js st = Inr (Some st') \<Longrightarrow>
   length (m_times st') = length (m_times st) \<and> length (m_scheds st') = length (m_scheds st)"
proof (induction js arbitrary: st)
  case Nil
  then show ?case by simp
next
  case (Cons j js)
  from Cons.prems obtain st1 where 1: "eval_job chrom j st = Inr (Some st1)"
    and 2: "eval_jobs chrom js st1 = Inr (Some st')"
    by (auto split: sum.splits option.splits)
  from eval_job_lengths[OF 1] Cons.IH[OF 2] show ?case by simp
qed

lemma list3: "length xs = 3 \<Longrightarrow> xs = [xs ! 0, xs ! 1, xs ! 2]"
  by (cases xs; cases "tl xs"; cases "tl (tl xs)") (auto simp: numeral_3_eq_3)

lemma maximum3: "maximum [a, b, c] = max a (max b c)"
  by (auto simp: maximum_def max_def)

lemma minimum3: "minimum [a, b, c] = min a (min b c)"
  by (auto simp: minimum_def min_def)

lemma eval_init_lengths: "length (m_times eval_init) = 3" "length (m_scheds eval_init) = 3"
  by (simp_all add: eval_init_def NUM_MACHINES_def)

lemma quotient_pos: "b \<noteq> 0 \<Longrightarrow> quotient a b = Some (a / b)"
  by (simp add: quotient_def)

text \<open>
  Claim C9, as the code has it. For every chromosome the evaluator accepts, the fitness
  is \<open>makespan + (1 - efficiency) * makespan * 0.4 + (max utilization - min utilization)
  * makespan * 0.2 + 10 * violation count\<close> in exact arithmetic, where the makespan is
  the largest final busy time, the efficiency is the total work divided by three times
  the makespan when the makespan is positive and 0 otherwise, and the utilization of a
  machine is its assigned work divided by the larger of 1 and its busy time. When every
  machine's busy time is at least 1 this is the value of the formula of the
  specification, whose quotients are then all defined.
\<close>

theorem fitness_formula:
  assumes "evaluate_chromosome jd chrom ordr = Inr (Some (f, scheds, viols))"
  shows "\<exists>st. eval_jobs chrom ordr eval_init = Inr (Some st)
           \<and> scheds = m_scheds st \<and> viols = violations st
           \<and> length (m_times st) = 3 \<and> length scheds = 3
           \<and> (let mk = Max (set (m_times st));
                   work = (\<lambda>m. sum_list (map placed_size (scheds ! m)));
                   eff = (if mk > 0 then rat_of_int (work 0 + work 1 + work 2) / rat_of_int (mk * 3)
                          else 0);
                   util = (\<lambda>m. rat_of_int (work m) / rat_of_int (max 1 (m_times st ! m)))
               in f = rat_of_int mk + (1 - eff) * rat_of_int mk * (4 / 10)
                      + (Max (util ` {0, 1, 2}) - Min (util ` {0, 1, 2})) * rat_of_int mk * (2 / 10)
                      + 10 * rat_of_nat (length viols))
           \<and> ((\<forall>m < 3. 1 \<le> m_times st ! m) \<longrightarrow> spec_fitness st = Some f)"
proof -
  from assms obtain st where st: "eval_jobs chrom ordr eval_init = Inr (Some st)"
    and f: "f = fitness_of st" and s: "scheds = m_scheds st" and v: "viols = violations st"
    by (auto simp: evaluate_chromosome_def split: sum.splits bool.splits option.splits)
  have len: "length (m_times st) = 3" "length (m_scheds st) = 3"
    using eval_jobs_lengths[OF st] eval_init_lengths by simp_all
  obtain t0 t1 t2 where mt: "m_times st = [t0, t1, t2]"
    using list3[OF len(1)] by metis
  obtain s0 s1 s2 where ms: "m_scheds st = [s0, s1, s2]"
    using list3[OF len(2)] by metis
  have formula: "let mk = Max (set (m_times st));
                   work = (\<lambda>m. sum_list (map placed_size (scheds ! m)));
                   eff = (if mk > 0 then rat_of_int (work 0 + work 1 + work 2) / rat_of_int (mk * 3)
                          else 0);
                   util = (\<lambda>m. rat_of_int (work m) / rat_of_int (max 1 (m_times st ! m)))
               in f = rat_of_int mk + (1 - eff) * rat_of_int mk * (4 / 10)
                      + (Max (util ` {0, 1, 2}) - Min (util ` {0, 1, 2})) * rat_of_int mk * (2 / 10)
                      + 10 * rat_of_nat (length viols)"
    unfolding f s v fitness_of_def mt ms
    by (simp add: Let_def NUM_MACHINES_def enumerate_eq_zip upt_rec maximum3 minimum3)
  have spec: "spec_fitness st = Some f" if busy: "\<forall>m < 3. 1 \<le> m_times st ! m"
  proof -
    have b: "1 \<le> t0" "1 \<le> t1" "1 \<le> t2"
      using busy[rule_format, of 0] busy[rule_format, of 1] busy[rule_format, of 2] mt by simp_all
    then have mk: "1 \<le> max t0 (max t1 t2)" by simp
    have m1: "max 1 t0 = t0" "max 1 t1 = t1" "max 1 t2 = t2" using b by simp_all
    show ?thesis
      unfolding f fitness_of_def spec_fitness_def mt ms
      using b mk
      by (simp add: Let_def NUM_MACHINES_def enumerate_eq_zip upt_rec quotient_def maximum3
          minimum3 m1)
  qed
  from st s v len formula spec show ?thesis by (intro exI[of _ st]) simp
qed

lemma eval_twelve:
  "eval_jobs [(1, [\<lparr>chunk_machine = 0, chunk_size = 4, chunk_order = 0\<rparr>,
                   \<lparr>chunk_machine = 1, chunk_size = 4, chunk_order = 1\<rparr>,
                   \<lparr>chunk_machine = 2, chunk_size = 4, chunk_order = 2\<rparr>])]
     [\<lparr>job_id = 1, job_name = ''A'', duration = 12, dependencies = [], min_chunk_size = 1\<rparr>] eval_init
   = Inr (Some \<lparr>m_times = [4, 8, 12],
        m_scheds = [[(\<lparr>job_id = 1, job_name = ''A'', duration = 12, dependencies = [], min_chunk_size = 1\<rparr>, 0, 4, 4)],
                    [(\<lparr>job_id = 1, job_name = ''A'', duration = 12, dependencies = [], min_chunk_size = 1\<rparr>, 4, 8, 4)],
                    [(\<lparr>job_id = 1, job_name = ''A'', duration = 12, dependencies = [], min_chunk_size = 1\<rparr>, 8, 12, 4)]],
        completed = [1 \<mapsto> 12], violations = [], loads = [4, 4, 4]\<rparr>)"
  by (simp add: eval_job_def eval_chunk_def eval_init_def NUM_MACHINES_def FIXED_MACHINE_CAPACITY_def
      eval_nat_numeral)

theorem fitness_formula_witness:
  "\<exists>st. eval_jobs [(1, [\<lparr>chunk_machine = 0, chunk_size = 4, chunk_order = 0\<rparr>,
                   \<lparr>chunk_machine = 1, chunk_size = 4, chunk_order = 1\<rparr>,
                   \<lparr>chunk_machine = 2, chunk_size = 4, chunk_order = 2\<rparr>])]
     [\<lparr>job_id = 1, job_name = ''A'', duration = 12, dependencies = [], min_chunk_size = 1\<rparr>] eval_init
       = Inr (Some st)
     \<and> m_times st = [4, 8, 12] \<and> fitness_of st = 84 / 5 \<and> spec_fitness st = Some (84 / 5)"
proof -
  let ?J = "\<lparr>job_id = 1, job_name = ''A'', duration = 12, dependencies = [], min_chunk_size = 1\<rparr>"
  let ?chrom = "[(1::int, [\<lparr>chunk_machine = 0, chunk_size = 4, chunk_order = 0\<rparr>,
                   \<lparr>chunk_machine = 1, chunk_size = 4, chunk_order = 1\<rparr>,
                   \<lparr>chunk_machine = 2, chunk_size = 4, chunk_order = 2\<rparr>])]"
  let ?st = "\<lparr>m_times = [4, 8, 12],
        m_scheds = [[(?J, 0, 4, 4)], [(?J, 4, 8, 4)], [(?J, 8, 12, 4)]],
        completed = [1 \<mapsto> 12], violations = [], loads = [4, 4, 4]\<rparr>"
  have fit: "fitness_of ?st = 84 / 5"
    by (simp add: fitness_of_def maximum3 minimum3 NUM_MACHINES_def enumerate_eq_zip upt_rec
        placed_size_def Let_def)
  have ev: "evaluate_chromosome (job_dict [?J]) ?chrom [?J] = Inr (Some (84 / 5, m_scheds ?st, violations ?st))"
    unfolding evaluate_chromosome_def eval_twelve fit[symmetric]
    by (simp add: job_dict_def MAX_CHUNK_SIZE_def)
  from fitness_formula[OF ev] obtain st where st: "eval_jobs ?chrom [?J] eval_init = Inr (Some st)"
    and sp: "(\<forall>m < 3. 1 \<le> m_times st ! m) \<longrightarrow> spec_fitness st = Some (84 / 5)"
    by blast
  from st have eq: "st = ?st" unfolding eval_twelve by simp
  have "\<forall>m < (3::nat). 1 \<le> m_times ?st ! m"
    by (simp add: less_Suc_eq eval_nat_numeral)
  with sp eq have "spec_fitness st = Some (84 / 5)" by simp
  with st eq fit show ?thesis by (intro exI[of _ st]) simp
qed

text \<open>
  One job of duration 3 on machine 0 leaves machines 1 and 2 idle: the evaluator returns
  the fitness \<open>22/5\<close>, while the utilization of an idle machine, its work divided by its
  busy time 0, has no value.
\<close>

theorem fitness_idle_machine_counterexample:
  "map_sum id (map_option fst)
     (evaluate_chromosome
        (job_dict [\<lparr>job_id = 1, job_name = ''A'', duration = 3, dependencies = [], min_chunk_size = 1\<rparr>])
        [(1, [\<lparr>chunk_machine = 0, chunk_size = 3, chunk_order = 0\<rparr>])]
        [\<lparr>job_id = 1, job_name = ''A'', duration = 3, dependencies = [], min_chunk_size = 1\<rparr>])
     = Inr (Some (22 / 5))
   \<and> map_sum id (map_option spec_fitness)
       (eval_jobs [(1, [\<lparr>chunk_machine = 0, chunk_size = 3, chunk_order = 0\<rparr>])]
          [\<lparr>job_id = 1, job_name = ''A'', duration = 3, dependencies = [], min_chunk_size = 1\<rparr>]
          eval_init)
     = Inr (Some None)"
proof -
  let ?J = "\<lparr>job_id = 1, job_name = ''A'', duration = 3, dependencies = [], min_chunk_size = 1\<rparr>"
  let ?st = "\<lparr>m_times = [3, 0, 0], m_scheds = [[(?J, 0, 3, 3)], [], []],
        completed = [1 \<mapsto> 3], violations = [], loads = [3, 0, 0]\<rparr>"
  have ev: "eval_jobs [(1, [\<lparr>chunk_machine = 0, chunk_size = 3, chunk_order = 0\<rparr>])] [?J] eval_init
      = Inr (Some ?st)"
    by (simp add: eval_job_def eval_chunk_def eval_init_def NUM_MACHINES_def FIXED_MACHINE_CAPACITY_def
      eval_nat_numeral)
  have fit: "fitness_of ?st = 22 / 5"
    by (simp add: fitness_of_def maximum3 minimum3 NUM_MACHINES_def enumerate_eq_zip upt_rec
        placed_size_def Let_def)
  have sp: "spec_fitness ?st = None"
    by (simp add: spec_fitness_def maximum3 minimum3 NUM_MACHINES_def enumerate_eq_zip upt_rec
        placed_size_def Let_def quotient_def)
  show ?thesis
    unfolding evaluate_chromosome_def ev
    by (simp add: fit sp job_dict_def MAX_CHUNK_SIZE_def)
qed

section \<open>Verification: the dependency order\<close>

text \<open>
  When the depth-first search succeeds, the order it returns lists every id once; in
  \<open>BacktrackingSolver\<close>, moreover, every job comes after all the jobs it depends on.
\<close>

lemma ordered_after_snoc:
  "ordered_after P (xs @ [j]) = (ordered_after P xs \<and> set (dependencies j) \<subseteq> P \<union> job_id ` set xs)"
  by (induction xs arbitrary: P) auto

lemma job_dict_id: "job_dict jobs i = Some j \<Longrightarrow> job_id j = i"
  unfolding job_dict_def by (auto dest!: map_of_SomeD)

lemma bt_dfs_inv:
  shows "bt_dfs n jd i st = Inr (True, st') \<Longrightarrow> \<forall>i j. jd i = Some j \<longrightarrow> job_id j = i \<Longrightarrow> dfs_inv st \<Longrightarrow> ordered_after {} (result st) \<Longrightarrow>
           dfs_inv st' \<and> ordered_after {} (result st') \<and> temp st' = temp st
           \<and> i \<in> visited st' \<and> visited st \<subseteq> visited st'"
    and "bt_dfs_deps n jd ds st = Inr (True, st') \<Longrightarrow> \<forall>i j. jd i = Some j \<longrightarrow> job_id j = i \<Longrightarrow> dfs_inv st \<Longrightarrow> ordered_after {} (result st) \<Longrightarrow>
           dfs_inv st' \<and> ordered_after {} (result st') \<and> temp st' = temp st
           \<and> set ds \<subseteq> visited st' \<and> visited st \<subseteq> visited st'"
proof (induction n jd i st and n jd ds st arbitrary: st' and st' rule: bt_dfs_bt_dfs_deps.induct)
  case (1 jd i st)
  then show ?case by simp
next
  case (2 n jd i st)
  show ?case
  proof (cases "i \<in> temp st \<or> i \<in> visited st")
    case True
    then show ?thesis using "2.prems" by (auto split: if_splits)
  next
    case False
    then have it: "i \<notin> temp st" and iv: "i \<notin> visited st" by auto
    let ?st1 = "st\<lparr>temp := insert i (temp st)\<rparr>"
    from "2.prems"(1) it iv obtain j where j: "jd i = Some j"
      by (cases "jd i") (auto simp: Let_def)
    from "2.prems"(1) it iv j obtain st2 where
      deps: "bt_dfs_deps n jd (dependencies j) ?st1 = Inr (True, st2)"
      and st': "st' = st2\<lparr>temp := temp st2 - {i}, visited := insert i (visited st2),
                         result := result st2 @ [j]\<rparr>"
      by (auto simp: Let_def split: sum.splits bool.splits prod.splits)
    note jd = "2.prems"(2)
    have inv1: "dfs_inv ?st1" using "2.prems"(3) iv by (auto simp: dfs_inv_def)
    have ord1: "ordered_after {} (result ?st1)" using "2.prems"(4) by simp
    from "2.IH"[OF _ _ refl j deps jd inv1 ord1] it iv
    have inv2: "dfs_inv st2" and ord2: "ordered_after {} (result st2)"
      and t2: "temp st2 = insert i (temp st)"
      and d2: "set (dependencies j) \<subseteq> visited st2" and v2: "visited st \<subseteq> visited st2"
      by simp_all
    have ji: "job_id j = i" using jd j by simp
    have inot: "i \<notin> visited st2" using inv2 t2 by (auto simp: dfs_inv_def)
    have "dfs_inv st'" using inv2 inot ji t2 unfolding st' dfs_inv_def by auto
    moreover have "ordered_after {} (result st')"
      using ord2 d2 inv2 unfolding st' by (simp add: ordered_after_snoc dfs_inv_def)
    moreover have "temp st' = temp st" using t2 it unfolding st' by auto
    moreover have "i \<in> visited st'" "visited st \<subseteq> visited st'" using v2 unfolding st' by auto
    ultimately show ?thesis by simp
  qed
next
  case (3 n jd st)
  then show ?case by simp
next
  case (4 n jd d ds st)
  from "4.prems"(1) obtain st1 where
    a: "bt_dfs n jd d st = Inr (True, st1)" and b: "bt_dfs_deps n jd ds st1 = Inr (True, st')"
    by (auto split: sum.splits bool.splits prod.splits)
  from "4.IH"(1)[OF a "4.prems"(2,3,4)]
  have 1: "dfs_inv st1" "ordered_after {} (result st1)" "temp st1 = temp st" "d \<in> visited st1"
    "visited st \<subseteq> visited st1" by simp_all
  from "4.IH"(2)[OF a refl refl b "4.prems"(2) 1(1,2)]
  have 2: "dfs_inv st'" "ordered_after {} (result st')" "temp st' = temp st1" "set ds \<subseteq> visited st'"
    "visited st1 \<subseteq> visited st'" by simp_all
  from 1 2 show ?case by auto
qed


lemma ca_dfs_inv:
  shows "ca_dfs n jd i st = Inr (True, st') \<Longrightarrow> \<forall>i j. jd i = Some j \<longrightarrow> job_id j = i \<Longrightarrow> dfs_inv st \<Longrightarrow>
           dfs_inv st' \<and> temp st \<subseteq> temp st' \<and> visited st \<subseteq> visited st'"
    and "ca_dfs_deps n jd ds st = Inr (True, st') \<Longrightarrow> \<forall>i j. jd i = Some j \<longrightarrow> job_id j = i \<Longrightarrow> dfs_inv st \<Longrightarrow>
           dfs_inv st' \<and> temp st \<subseteq> temp st' \<and> visited st \<subseteq> visited st'"
proof (induction n jd i st and n jd ds st arbitrary: st' and st' rule: ca_dfs_ca_dfs_deps.induct)
  case (1 jd i st)
  then show ?case by simp
next
  case (2 n jd i st)
  show ?case
  proof (cases "i \<in> temp st \<or> i \<in> visited st")
    case True
    then show ?thesis using "2.prems" by (auto split: if_splits)
  next
    case False
    then have it: "i \<notin> temp st" and iv: "i \<notin> visited st" by auto
    let ?st1 = "st\<lparr>temp := insert i (temp st)\<rparr>"
    have inv1: "dfs_inv ?st1" using "2.prems"(3) iv by (auto simp: dfs_inv_def)
    show ?thesis
    proof (cases "jd i")
      case None
      then have "st' = ?st1" using "2.prems"(1) it iv by (simp add: Let_def)
      then show ?thesis using inv1 by auto
    next
      case (Some j)
      from "2.prems"(1) it iv Some obtain st2 where
        deps: "ca_dfs_deps n jd (dependencies j) ?st1 = Inr (True, st2)"
        and st': "st' = st2\<lparr>temp := temp st2 - {i}, visited := insert i (visited st2),
                           result := result st2 @ [j]\<rparr>"
        by (auto simp: Let_def split: sum.splits bool.splits prod.splits)
      from "2.IH"[OF _ _ refl Some deps "2.prems"(2) inv1] it iv
      have inv2: "dfs_inv st2" and t2: "insert i (temp st) \<subseteq> temp st2"
        and v2: "visited st \<subseteq> visited st2"
        by simp_all
      have ji: "job_id j = i" using "2.prems"(2) Some by simp
      have inot: "i \<notin> visited st2" using inv2 t2 by (auto simp: dfs_inv_def)
      have "dfs_inv st'" using inv2 inot ji unfolding st' dfs_inv_def by auto
      moreover have "temp st \<subseteq> temp st'" using t2 it unfolding st' by auto
      moreover have "visited st \<subseteq> visited st'" using v2 unfolding st' by auto
      ultimately show ?thesis by simp
    qed
  qed
next
  case (3 n jd st)
  then show ?case by simp
next
  case (4 n jd d ds st)
  from "4.prems"(1) obtain st1 where
    a: "ca_dfs n jd d st = Inr (True, st1)" and b: "ca_dfs_deps n jd ds st1 = Inr (True, st')"
    by (auto split: sum.splits bool.splits prod.splits)
  from "4.IH"(1)[OF a "4.prems"(2,3)]
  have 1: "dfs_inv st1" "temp st \<subseteq> temp st1" "visited st \<subseteq> visited st1" by simp_all
  from "4.IH"(2)[OF a refl refl b "4.prems"(2) 1(1)]
  have 2: "dfs_inv st'" "temp st1 \<subseteq> temp st'" "visited st1 \<subseteq> visited st'" by simp_all
  from 1 2 show ?case by auto
qed

lemma visit_all_inv:
  assumes step: "\<And>i st st'. dfs i st = Inr (True, st') \<Longrightarrow> I st \<Longrightarrow> I st'"
  shows "visit_all dfs js st = Inr (Some ordr) \<Longrightarrow> I st \<Longrightarrow> \<exists>st'. I st' \<and> ordr = result st'"
proof (induction js arbitrary: st)
  case Nil
  then show ?case by auto
next
  case (Cons j js)
  show ?case
  proof (cases "job_id j \<in> visited st")
    case True
    then show ?thesis using Cons by simp
  next
    case False
    with Cons.prems(1) obtain st1 where
      a: "dfs (job_id j) st = Inr (True, st1)" and b: "visit_all dfs js st1 = Inr (Some ordr)"
      by (auto split: sum.splits bool.splits prod.splits)
    from Cons.IH[OF b step[OF a Cons.prems(2)]] show ?thesis .
  qed
qed

lemma dfs_inv_init: "dfs_inv dfs_init" "ordered_after {} (result dfs_init)"
  by (simp_all add: dfs_inv_def dfs_init_def)

lemma bt_topological_sort_ordered:
  assumes "bt_topological_sort limit jobs = Inr (Some ordr)"
  shows "distinct (map job_id ordr) \<and> ordered_after {} ordr"
proof -
  let ?I = "\<lambda>st. dfs_inv st \<and> ordered_after {} (result st)"
  have jd: "\<forall>i j. job_dict jobs i = Some j \<longrightarrow> job_id j = i" using job_dict_id by blast
  have "\<exists>st'. ?I st' \<and> ordr = result st'"
  proof (rule visit_all_inv[where I = ?I and dfs = "bt_dfs limit (job_dict jobs)"])
    show "?I st'" if "bt_dfs limit (job_dict jobs) i st = Inr (True, st')" "?I st" for i st st'
      using bt_dfs_inv(1)[OF that(1) jd] that(2) by simp
    show "visit_all (bt_dfs limit (job_dict jobs)) jobs dfs_init = Inr (Some ordr)"
      using assms by (simp add: bt_topological_sort_def)
    show "?I dfs_init" using dfs_inv_init by simp
  qed
  then show ?thesis by (auto simp: dfs_inv_def)
qed

lemma ca_topological_sort_distinct:
  assumes "ca_topological_sort limit jobs = Inr (Some ordr)"
  shows "distinct (map job_id ordr)"
proof -
  have jd: "\<forall>i j. job_dict jobs i = Some j \<longrightarrow> job_id j = i" using job_dict_id by blast
  have "\<exists>st'. dfs_inv st' \<and> ordr = result st'"
  proof (rule visit_all_inv[where I = dfs_inv and dfs = "ca_dfs limit (job_dict jobs)"])
    show "dfs_inv st'" if "ca_dfs limit (job_dict jobs) i st = Inr (True, st')" "dfs_inv st" for i st st'
      using ca_dfs_inv(1)[OF that(1) jd that(2)] by simp
    show "visit_all (ca_dfs limit (job_dict jobs)) jobs dfs_init = Inr (Some ordr)"
      using assms by (simp add: ca_topological_sort_def)
    show "dfs_inv dfs_init" using dfs_inv_init by simp
  qed
  then show ?thesis by (auto simp: dfs_inv_def)
qed

section \<open>Verification: runs of a scheduling loop\<close>

lemma chunks_of_append: "chunks_of i (xs @ ys) = chunks_of i xs @ chunks_of i ys"
  by (simp add: chunks_of_def)

lemma chunks_of_on_machine:
  "chunks_of i (on_machine j m ps) = (if job_id j = i then on_machine j m ps else [])"
  by (auto simp: chunks_of_def on_machine_def filter_map comp_def split_beta filter_empty_conv)

lemma chunks_of_empty: "(\<forall>q \<in> set xs. job_id (fst q) \<noteq> i) \<Longrightarrow> chunks_of i xs = []"
  by (auto simp: chunks_of_def filter_empty_conv)

lemma entries_nth: "m < length s \<Longrightarrow> q \<in> set (s ! m) \<Longrightarrow> q \<in> entries s"
  by (auto simp: entries_def)

lemma entries_obtain: "q \<in> entries s \<Longrightarrow> \<exists>m < length s. q \<in> set (s ! m)"
proof -
  assume "q \<in> entries s"
  then obtain xs where "xs \<in> set s" "q \<in> set xs" by (auto simp: entries_def)
  then show ?thesis by (metis in_set_conv_nth)
qed

lemma on_machine_fst: "q \<in> set (on_machine j m ps) \<Longrightarrow> fst q = j"
  by (auto simp: on_machine_def)

lemma in_chunks_of: "q \<in> set xs \<Longrightarrow> q \<in> set (chunks_of (job_id (fst q)) xs)"
  by (simp add: chunks_of_def)

lemma chunks_of_subset: "q \<in> set (chunks_of i xs) \<Longrightarrow> q \<in> set xs \<and> job_id (fst q) = i"
  by (simp add: chunks_of_def)

text \<open>The frame and the content of a run.\<close>

lemma run_frame:
  assumes "run strict P js s s'"
    and "distinct (map job_id js)"
    and "job_id ` set js \<inter> P = {}"
    and "\<forall>q \<in> entries s. job_id (fst q) \<in> P"
  shows "length s' = length s
         \<and> (\<forall>q \<in> entries s'. job_id (fst q) \<in> P \<or> fst q \<in> set js)
         \<and> (\<forall>i \<in> P. \<forall>m < length s. chunks_of i (s' ! m) = chunks_of i (s ! m))
         \<and> (\<forall>j \<in> set js. \<exists>t ps. chained t ps
               \<and> (\<forall>m < length s. chunks_of (job_id j) (s' ! m) = on_machine j m ps))"
  using assms
proof (induction rule: run.induct)
  case (run_Nil strict P s)
  then show ?case by simp
next
  case (run_Cons t ps strict j P s s1 js s')
  let ?P = "insert (job_id j) P"
  have d: "distinct (map job_id js)" and jn: "job_id j \<notin> job_id ` set js" and jP: "job_id j \<notin> P"
    and dis: "job_id ` set js \<inter> ?P = {}"
    using run_Cons.prems by auto
  have s1: "\<And>m. m < length s \<Longrightarrow> s1 ! m = s ! m @ on_machine j m ps" using run_Cons.hyps by simp
  have len1: "length s1 = length s" using run_Cons.hyps by simp
  have ent1: "\<forall>q \<in> entries s1. job_id (fst q) \<in> ?P"
  proof
    fix q assume "q \<in> entries s1"
    then obtain m where m: "m < length s" "q \<in> set (s1 ! m)" using entries_obtain len1 by metis
    then have "q \<in> set (s ! m) \<or> q \<in> set (on_machine j m ps)" using s1 by auto
    then show "job_id (fst q) \<in> ?P"
      using run_Cons.prems(3) m(1) entries_nth on_machine_fst by blast
  qed
  note IH = run_Cons.IH[OF d dis ent1]
  have len: "length s' = length s" using IH len1 by simp
  have old: "chunks_of (job_id j) (s ! m) = []" if "m < length s" for m
    by (rule chunks_of_empty) (use that run_Cons.prems(3) jP entries_nth in metis)
  have own: "chunks_of (job_id j) (s' ! m) = on_machine j m ps" if "m < length s" for m
  proof -
    have "chunks_of (job_id j) (s' ! m) = chunks_of (job_id j) (s1 ! m)"
      using IH that len1 by simp
    then show ?thesis using s1[OF that] old[OF that]
      by (simp add: chunks_of_append chunks_of_on_machine)
  qed
  have frame: "chunks_of i (s' ! m) = chunks_of i (s ! m)" if "i \<in> P" "m < length s" for i m
  proof -
    have "i \<noteq> job_id j" using that jP by auto
    moreover have "chunks_of i (s' ! m) = chunks_of i (s1 ! m)" using IH that len1 by simp
    ultimately show ?thesis using s1[OF that(2)]
      by (simp add: chunks_of_append chunks_of_on_machine)
  qed
  have ent: "job_id (fst q) \<in> P \<or> fst q \<in> set (j # js)" if "q \<in> entries s'" for q
  proof -
    from IH that have "job_id (fst q) \<in> ?P \<or> fst q \<in> set js" by blast
    moreover have "fst q = j" if "job_id (fst q) = job_id j"
    proof -
      obtain m where m: "m < length s" "q \<in> set (s' ! m)"
        using \<open>q \<in> entries s'\<close> entries_obtain len by metis
      then have "q \<in> set (chunks_of (job_id j) (s' ! m))" using that in_chunks_of by metis
      then show ?thesis using own[OF m(1)] on_machine_fst by metis
    qed
    ultimately show ?thesis by auto
  qed
  have jobs: "\<exists>t ps. chained t ps \<and> (\<forall>m < length s. chunks_of (job_id j') (s' ! m) = on_machine j' m ps)"
    if "j' \<in> set (j # js)" for j'
  proof (cases "j' = j")
    case True
    then show ?thesis using run_Cons.hyps(1) own by blast
  next
    case False
    then have "j' \<in> set js" using that by simp
    then show ?thesis using IH len1 by auto
  qed
  from len ent frame jobs show ?case by blast
qed

lemma steady_tail:
  "steady (p # ps) \<Longrightarrow> ps \<noteq> [] \<Longrightarrow> 0 \<le> snd (snd (snd p)) \<and> steady ps"
  by (cases ps) (auto simp: steady_def)

lemma chained_starts:
  "chained t ps \<Longrightarrow> steady ps \<Longrightarrow> \<forall>p \<in> set ps. t \<le> fst (snd p)"
proof (induction ps arbitrary: t)
  case Nil
  then show ?case by simp
next
  case (Cons p ps)
  obtain m s e z where p: "p = (m, s, e, z)" by (cases p)
  have hd: "t \<le> s" and e: "e = s + z" and ch: "chained e ps" using Cons.prems(1) p by auto
  show ?case
  proof (cases "ps = []")
    case True
    then show ?thesis using hd p by simp
  next
    case False
    from steady_tail[OF Cons.prems(2) False] p have z: "0 \<le> z" and st: "steady ps" by simp_all
    from Cons.IH[OF ch st] have "\<forall>x \<in> set ps. e \<le> fst (snd x)" .
    then have "\<forall>x \<in> set ps. t \<le> fst (snd x)" using hd e z by fastforce
    then show ?thesis using hd p by simp
  qed
qed

lemma chained_ends:
  "chained t ps \<Longrightarrow> steady ps \<Longrightarrow> ps \<noteq> [] \<Longrightarrow>
   \<forall>p \<in> set ps. fst (snd (snd p)) \<le> fst (snd (snd (last ps)))"
proof (induction ps arbitrary: t)
  case Nil
  then show ?case by simp
next
  case (Cons p ps)
  obtain m s e z where p: "p = (m, s, e, z)" by (cases p)
  have e: "e = s + z" and ch: "chained e ps" using Cons.prems(1) p by auto
  show ?case
  proof (cases "ps = []")
    case True
    then show ?thesis by simp
  next
    case False
    from steady_tail[OF Cons.prems(2) False] have st: "steady ps" by simp
    have nn: "\<forall>x \<in> set ps. 0 \<le> snd (snd (snd x))"
      using Cons.prems(2) False by (cases ps) (auto simp: steady_def)
    from Cons.IH[OF ch st False] have IH: "\<forall>x \<in> set ps. fst (snd (snd x)) \<le> fst (snd (snd (last ps)))" .
    obtain m' s' e' z' where l: "last ps = (m', s', e', z')" by (cases "last ps")
    have lin: "last ps \<in> set ps" using False by simp
    have "e \<le> s'" using chained_starts[OF ch st] lin l by fastforce
    moreover have "0 \<le> z'" using nn lin l by fastforce
    moreover have "chained e ps \<Longrightarrow> (m', s', e', z') \<in> set ps \<Longrightarrow> e' = s' + z'" for ps e
      by (induction ps arbitrary: e) auto
    then have "e' = s' + z'" using ch lin l by metis
    ultimately have "e \<le> e'" by simp
    then show ?thesis using IH p l False by auto
  qed
qed

lemma run_after_dependencies:
  assumes "run True P js s s'"
    and "distinct (map job_id js)"
    and "job_id ` set js \<inter> P = {}"
    and "\<forall>q \<in> entries s. job_id (fst q) \<in> P"
  shows "\<forall>p \<in> entries s'. fst p \<in> set js \<longrightarrow>
           (\<forall>q \<in> entries s'. job_id (fst q) \<in> set (dependencies (fst p))
               \<longrightarrow> placed_end q \<le> placed_start p)"
  using assms
proof (induction strict\<equiv>True P js s s' rule: run.induct)
  case (run_Nil P s)
  then show ?case by simp
next
  case (run_Cons t ps j P s s1 js s')
  let ?P = "insert (job_id j) P"
  have d: "distinct (map job_id js)" and jn: "job_id j \<notin> job_id ` set js" and jP: "job_id j \<notin> P"
    and dis: "job_id ` set js \<inter> ?P = {}"
    using run_Cons.prems by auto
  have strict: "steady ps" "set (dependencies j) \<subseteq> P"
    "\<forall>q \<in> entries s. job_id (fst q) \<in> set (dependencies j) \<longrightarrow> placed_end q \<le> t"
    using run_Cons.hyps(2) by simp_all
  have s1: "\<And>m. m < length s \<Longrightarrow> s1 ! m = s ! m @ on_machine j m ps" using run_Cons.hyps by simp
  have len1: "length s1 = length s" using run_Cons.hyps by simp
  have ent1: "\<forall>q \<in> entries s1. job_id (fst q) \<in> ?P"
  proof
    fix q assume "q \<in> entries s1"
    then obtain m where m: "m < length s" "q \<in> set (s1 ! m)" using entries_obtain len1 by metis
    then have "q \<in> set (s ! m) \<or> q \<in> set (on_machine j m ps)" using s1 by auto
    then show "job_id (fst q) \<in> ?P"
      using run_Cons.prems(3) m(1) entries_nth on_machine_fst by blast
  qed
  note fr = run_frame[OF run_Cons.hyps(5) d dis ent1]
  have len: "length s' = length s" using fr len1 by simp
  have frame: "chunks_of i (s' ! m) = chunks_of i (s1 ! m)" if "i \<in> ?P" "m < length s" for i m
    using fr that len1 by auto
  have old: "chunks_of (job_id j) (s ! m) = []" if "m < length s" for m
    by (rule chunks_of_empty) (use that run_Cons.prems(3) jP entries_nth in metis)
  note IH = run_Cons.hyps(6)[OF d dis ent1]
  show ?case
  proof (intro ballI impI)
    fix p q
    assume p: "p \<in> entries s'" and pj: "fst p \<in> set (j # js)"
      and q: "q \<in> entries s'" and dep: "job_id (fst q) \<in> set (dependencies (fst p))"
    show "placed_end q \<le> placed_start p"
    proof (cases "fst p \<in> set js")
      case True
      then show ?thesis using IH p q dep by blast
    next
      case False
      then have fp: "fst p = j" using pj by simp
      obtain m where m: "m < length s" "p \<in> set (s' ! m)" using p entries_obtain len by metis
      have "p \<in> set (chunks_of (job_id j) (s' ! m))" using in_chunks_of[OF m(2)] fp by simp
      then have "p \<in> set (on_machine j m ps)"
        using frame[of "job_id j" m] m(1) s1[OF m(1)] old[OF m(1)]
        by (simp add: chunks_of_append chunks_of_on_machine)
      then obtain x where x: "x \<in> set ps" "placed_start p = fst (snd x)"
        by (auto simp: on_machine_def placed_start_def)
      then have tp: "t \<le> placed_start p" using chained_starts[OF run_Cons.hyps(1) strict(1)] by simp
      have qP: "job_id (fst q) \<in> P" using dep fp strict(2) by auto
      then have ne: "job_id (fst q) \<noteq> job_id j" using jP by auto
      obtain m' where m': "m' < length s" "q \<in> set (s' ! m')" using q entries_obtain len by metis
      have "q \<in> set (chunks_of (job_id (fst q)) (s' ! m'))" using in_chunks_of[OF m'(2)] .
      then have "q \<in> set (chunks_of (job_id (fst q)) (s ! m'))"
        using frame[of "job_id (fst q)" m'] qP m'(1) s1[OF m'(1)] ne
        by (simp add: chunks_of_append chunks_of_on_machine)
      then have "q \<in> entries s" using chunks_of_subset entries_nth m'(1) by metis
      then have "placed_end q \<le> t" using strict(3) dep fp by simp
      then show ?thesis using tp by simp
    qed
  qed
qed

section \<open>Verification: the greedy scheduling loop is a run\<close>

lemma fold_inflationary:
  fixes a :: int
  assumes "\<And>x a. a \<le> g x a"
  shows "a \<le> fold g xs a"
proof (induction xs arbitrary: a)
  case Nil
  then show ?case by simp
next
  case (Cons x xs)
  have "a \<le> g x a" by (rule assms)
  also have "\<dots> \<le> fold g xs (g x a)" by (rule Cons.IH)
  finally show ?case by simp
qed

lemma fold_reaches:
  fixes b :: int
  assumes infl: "\<And>x a. a \<le> g x a" and x: "x \<in> set xs" and b: "\<And>a. b \<le> g x a"
  shows "b \<le> fold g xs a"
  using x
proof (induction xs arbitrary: a)
  case Nil
  then show ?case by simp
next
  case (Cons y ys)
  show ?case
  proof (cases "x = y")
    case True
    have "b \<le> g y a" using b True by simp
    also have "\<dots> \<le> fold g ys (g y a)" by (rule fold_inflationary[OF infl])
    finally show ?thesis by simp
  next
    case False
    then have "x \<in> set ys" using Cons.prems by simp
    from Cons.IH[OF this] show ?thesis by simp
  qed
qed

lemma earliest_start_bound:
  assumes "q \<in> entries scheds" "job_id (fst q) \<in> set (dependencies j)"
  shows "placed_end q \<le> earliest_start j scheds"
proof -
  let ?h = "\<lambda>dep_id. (\<lambda>(dep_job, _, dep_end, _) es.
                   if job_id dep_job = dep_id then max es dep_end else (es::int))"
  let ?g = "\<lambda>dep_id m_sched es. fold (?h dep_id) m_sched es"
  let ?f = "\<lambda>dep_id es. fold (?g dep_id) scheds es"
  have h: "a \<le> ?h d x a" for d x a by (cases x) auto
  have g: "a \<le> ?g d xs a" for d xs a
    by (rule fold_inflationary[where g = "?h d"]) (rule h)
  have f: "a \<le> ?f d a" for d a
    by (rule fold_inflationary[where g = "?g d"]) (rule g)
  from assms(1) obtain sched where sched: "sched \<in> set scheds" "q \<in> set sched"
    by (auto simp: entries_def)
  let ?d = "job_id (fst q)"
  have hq: "placed_end q \<le> ?h ?d q a" for a
    by (cases q) (auto simp: placed_end_def)
  have gq: "placed_end q \<le> ?g ?d sched a" for a
  proof (rule fold_reaches[where g = "?h ?d" and x = q])
    show "a \<le> ?h ?d x a" for x a by (rule h)
    show "q \<in> set sched" by (rule sched(2))
    show "placed_end q \<le> ?h ?d q a" for a by (rule hq)
  qed
  have fq: "placed_end q \<le> ?f ?d a" for a
  proof (rule fold_reaches[where g = "?g ?d" and x = sched])
    show "a \<le> ?g ?d x a" for x a by (rule g)
    show "sched \<in> set scheds" by (rule sched(1))
    show "placed_end q \<le> ?g ?d sched a" for a by (rule gq)
  qed
  have "placed_end q \<le> fold ?f (dependencies j) 0"
  proof (rule fold_reaches[where g = ?f and x = ?d])
    show "a \<le> ?f x a" for x a by (rule f)
    show "?d \<in> set (dependencies j)" by (rule assms(2))
    show "placed_end q \<le> ?f ?d a" for a by (rule fq)
  qed
  then show ?thesis by (simp add: earliest_start_def)
qed

lemma min_machine_less: "min_machine ts < 3"
  by (simp add: min_machine_def NUM_MACHINES_def upt_rec)

lemma on_machine_Cons:
  "on_machine j m ((m0, s, e, z) # ps) = (if m0 = m then [(j, s, e, z)] else []) @ on_machine j m ps"
  by (simp add: on_machine_def)

lemma on_machine_Nil: "on_machine j m [] = []"
  by (simp add: on_machine_def)

lemma place_chunks_run:
  assumes "length (machine_schedules st) = 3"
  shows "\<exists>ps. chained t ps \<and> map (\<lambda>p. snd (snd (snd p))) ps = sizes
           \<and> length (machine_schedules (place_chunks j t sizes st)) = 3
           \<and> (\<forall>m < 3. machine_schedules (place_chunks j t sizes st) ! m
                        = machine_schedules st ! m @ on_machine j m ps)"
  using assms
proof (induction sizes arbitrary: t st)
  case Nil
  show ?case by (intro exI[of _ "[]"]) (simp add: on_machine_Nil Nil)
next
  case (Cons z zs)
  let ?m = "min_machine (machine_times st)"
  let ?s = "max t (machine_times st ! ?m)"
  let ?e = "?s + z"
  obtain st1 where pl: "place j t z st = (st1, ?e)"
    and sch1: "machine_schedules st1
      = (machine_schedules st)[?m := machine_schedules st ! ?m @ [(j, ?s, ?e, z)]]"
    by (simp add: place_def Let_def)
  have len1: "length (machine_schedules st1) = 3" using sch1 Cons.prems by simp
  from Cons.IH[OF len1, of ?e] obtain ps where ps: "chained ?e ps"
    "map (\<lambda>p. snd (snd (snd p))) ps = zs"
    "length (machine_schedules (place_chunks j ?e zs st1)) = 3"
    "\<forall>m < 3. machine_schedules (place_chunks j ?e zs st1) ! m
                        = machine_schedules st1 ! m @ on_machine j m ps"
    by blast
  have eq: "place_chunks j t (z # zs) st = place_chunks j ?e zs st1" using pl by simp
  show ?case
  proof (intro exI[of _ "(?m, ?s, ?e, z) # ps"] conjI allI impI)
    show "chained t ((?m, ?s, ?e, z) # ps)" using ps(1) by simp
    show "map (\<lambda>p. snd (snd (snd p))) ((?m, ?s, ?e, z) # ps) = z # zs" using ps(2) by simp
    show "length (machine_schedules (place_chunks j t (z # zs) st)) = 3" using ps(3) eq by simp
    fix m :: nat assume m: "m < 3"
    have "machine_schedules st1 ! m
        = machine_schedules st ! m @ (if ?m = m then [(j, ?s, ?e, z)] else [])"
      using sch1 m Cons.prems by (auto simp: nth_list_update)
    then show "machine_schedules (place_chunks j t (z # zs) st) ! m
        = machine_schedules st ! m @ on_machine j m ((?m, ?s, ?e, z) # ps)"
      using ps(4) m eq by (simp add: on_machine_Cons)
  qed
qed


lemma final_sizes_nonneg:
  assumes "0 < d" "final_sizes d = Inr sizes"
  shows "\<forall>z \<in> set sizes. 0 \<le> z"
proof -
  have n: "0 < (d + 4) div 5" using num_chunks_props(1)[OF assms(1)] .
  have "sizes = balanced_parts d ((d + 4) div 5)"
    using final_sizes_balanced(1)[OF assms(1)] assms(2) by simp
  moreover have "0 \<le> d div ((d + 4) div 5)"
    using assms(1) n by (simp add: pos_imp_zdiv_nonneg_iff)
  ultimately show ?thesis by (auto simp: balanced_parts_def)
qed

lemma place_single: "fst (place j t z st) = place_chunks j t [z] st"
  by (simp add: split_beta)

lemma schedule_job_run:
  assumes "schedule_job j st = Inr st'" "length (machine_schedules st) = 3"
  shows "\<exists>t ps. chained t ps \<and> steady ps
           \<and> (\<forall>q \<in> entries (machine_schedules st).
                  job_id (fst q) \<in> set (dependencies j) \<longrightarrow> placed_end q \<le> t)
           \<and> length (machine_schedules st') = 3
           \<and> (\<forall>m < 3. machine_schedules st' ! m = machine_schedules st ! m @ on_machine j m ps)"
proof -
  let ?t = "earliest_start j (machine_schedules st)"
  have bound: "\<forall>q \<in> entries (machine_schedules st).
                  job_id (fst q) \<in> set (dependencies j) \<longrightarrow> placed_end q \<le> ?t"
    using earliest_start_bound by blast
  obtain sizes where st': "st' = place_chunks j ?t sizes st"
    and sz: "length sizes \<le> 1 \<or> (\<forall>z \<in> set sizes. 0 \<le> z)"
  proof (cases "duration j > MAX_CHUNK_SIZE")
    case True
    then obtain sizes where fs: "final_sizes (duration j) = Inr sizes"
      and "st' = place_chunks j ?t sizes st"
      using assms(1) by (auto simp: schedule_job_def Let_def split: sum.splits)
    moreover have "0 < duration j" using True by (simp add: MAX_CHUNK_SIZE_def)
    ultimately show ?thesis using that final_sizes_nonneg by blast
  next
    case False
    then have "st' = place_chunks j ?t [duration j] st"
      using assms(1) by (simp add: schedule_job_def Let_def place_single del: place_chunks.simps)
    then show ?thesis using that[of "[duration j]"] by simp
  qed
  from place_chunks_run[OF assms(2), where t = ?t and j = j and sizes = sizes] obtain ps where ps: "chained ?t ps"
    "map (\<lambda>p. snd (snd (snd p))) ps = sizes"
    "length (machine_schedules st') = 3"
    "\<forall>m < 3. machine_schedules st' ! m = machine_schedules st ! m @ on_machine j m ps"
    unfolding st' by blast
  have "steady ps"
  proof -
    have "length ps = length sizes" using ps(2) by (metis length_map)
    moreover have "set sizes = (\<lambda>p. snd (snd (snd p))) ` set ps" using ps(2) by (metis set_map)
    ultimately show ?thesis using sz by (auto simp: steady_def)
  qed
  with ps bound show ?thesis by blast
qed

lemma schedule_jobs_run:
  "schedule_jobs js st = Inr st' \<Longrightarrow> length (machine_schedules st) = 3 \<Longrightarrow> ordered_after P js \<Longrightarrow>
   run True P js (machine_schedules st) (machine_schedules st')"
proof (induction js arbitrary: st P)
  case Nil
  then show ?case by (simp add: run_Nil)
next
  case (Cons j js)
  from Cons.prems(1) obtain st1 where a: "schedule_job j st = Inr st1"
    and b: "schedule_jobs js st1 = Inr st'"
    by (auto split: sum.splits)
  from schedule_job_run[OF a Cons.prems(2)] obtain t ps where s: "chained t ps" "steady ps"
    "\<forall>q \<in> entries (machine_schedules st).
        job_id (fst q) \<in> set (dependencies j) \<longrightarrow> placed_end q \<le> t"
    "length (machine_schedules st1) = 3"
    "\<forall>m < 3. machine_schedules st1 ! m = machine_schedules st ! m @ on_machine j m ps"
    by blast
  have deps: "set (dependencies j) \<subseteq> P" and ord: "ordered_after (insert (job_id j) P) js"
    using Cons.prems(3) by simp_all
  from Cons.IH[OF b s(4) ord]
  have r: "run True (insert (job_id j) P) js (machine_schedules st1) (machine_schedules st')" .
  show ?case
    by (rule run_Cons[OF s(1) _ _ _ r]) (use s deps Cons.prems(2) in auto)
qed

section \<open>Verification: the evaluator's simulation is a run\<close>

lemma eval_chunk_run:
  assumes "eval_chunk j c t st = Inr (st', t')"
  shows "\<exists>s. t \<le> s \<and> t' = s + chunk_size c \<and> completed st' = completed st
           \<and> length (m_scheds st') = length (m_scheds st)
           \<and> m_scheds st' = (m_scheds st)[chunk_machine c :=
                 m_scheds st ! chunk_machine c @ [(j, s, t', chunk_size c)]]"
  using assms by (auto simp: eval_chunk_def Let_def split: if_splits)

lemma eval_chunks_run:
  assumes "eval_chunks j t cs st = Inr (st', t')" "length (m_scheds st) = 3"
  shows "\<exists>ps. chained t ps \<and> map (\<lambda>p. snd (snd (snd p))) ps = map chunk_size cs
           \<and> length (m_scheds st') = 3 \<and> completed st' = completed st
           \<and> t' = (if ps = [] then t else fst (snd (snd (last ps))))
           \<and> (\<forall>m < 3. m_scheds st' ! m = m_scheds st ! m @ on_machine j m ps)"
  using assms
proof (induction cs arbitrary: t st)
  case Nil
  then show ?case by (intro exI[of _ "[]"]) (simp add: on_machine_Nil)
next
  case (Cons c cs)
  from Cons.prems(1) obtain st1 t1 where a: "eval_chunk j c t st = Inr (st1, t1)"
    and b: "eval_chunks j t1 cs st1 = Inr (st', t')"
    by (auto split: sum.splits)
  from eval_chunk_run[OF a] obtain s where s: "t \<le> s" "t1 = s + chunk_size c"
    "completed st1 = completed st" "length (m_scheds st1) = length (m_scheds st)"
    "m_scheds st1 = (m_scheds st)[chunk_machine c :=
                 m_scheds st ! chunk_machine c @ [(j, s, t1, chunk_size c)]]"
    by blast
  have len1: "length (m_scheds st1) = 3" using s(4) Cons.prems(2) by simp
  from Cons.IH[OF b len1] obtain ps where ps: "chained t1 ps"
    "map (\<lambda>p. snd (snd (snd p))) ps = map chunk_size cs"
    "length (m_scheds st') = 3" "completed st' = completed st1"
    "t' = (if ps = [] then t1 else fst (snd (snd (last ps))))"
    "\<forall>m < 3. m_scheds st' ! m = m_scheds st1 ! m @ on_machine j m ps"
    by blast
  let ?p = "(chunk_machine c, s, t1, chunk_size c)"
  show ?case
  proof (intro exI[of _ "?p # ps"] conjI allI impI)
    show "chained t (?p # ps)" using s(1,2) ps(1) by simp
    show "map (\<lambda>p. snd (snd (snd p))) (?p # ps) = map chunk_size (c # cs)" using ps(2) by simp
    show "length (m_scheds st') = 3" by (rule ps(3))
    show "completed st' = completed st" using ps(4) s(3) by simp
    show "t' = (if ?p # ps = [] then t else fst (snd (snd (last (?p # ps)))))"
      using ps(5) by simp
    fix m :: nat assume m: "m < 3"
    have "m_scheds st1 ! m
        = m_scheds st ! m @ (if chunk_machine c = m then [(j, s, t1, chunk_size c)] else [])"
      using s(5) m Cons.prems(2) by (auto simp: nth_list_update)
    then show "m_scheds st' ! m = m_scheds st ! m @ on_machine j m (?p # ps)"
      using ps(6) m by (simp add: on_machine_Cons)
  qed
qed

lemma dep_start_bound:
  "dep_start cmpl ds t0 = Some t \<Longrightarrow>
   t0 \<le> t \<and> (\<forall>d \<in> set ds. \<exists>c. cmpl d = Some c \<and> c \<le> t)"
proof (induction ds arbitrary: t0)
  case Nil
  then show ?case by simp
next
  case (Cons d ds)
  from Cons.prems obtain c where c: "cmpl d = Some c" and r: "dep_start cmpl ds (max t0 c) = Some t"
    by (auto split: option.splits)
  from Cons.IH[OF r] c show ?case by auto
qed

lemma eval_job_run:
  assumes "eval_job chrom j st = Inr (Some st')" "length (m_scheds st) = 3"
  shows "\<exists>t ps cs. chained t ps \<and> ps \<noteq> []
           \<and> map_of chrom (job_id j) = Some cs
           \<and> map (\<lambda>p. snd (snd (snd p))) ps = map chunk_size (sort_key chunk_order cs)
           \<and> (\<forall>d \<in> set (dependencies j). \<exists>c. completed st d = Some c \<and> c \<le> t)
           \<and> length (m_scheds st') = 3
           \<and> completed st' = (completed st)(job_id j \<mapsto> fst (snd (snd (last ps))))
           \<and> (\<forall>m < 3. m_scheds st' ! m = m_scheds st ! m @ on_machine j m ps)"
proof -
  from assms(1) obtain t cs st1 t1 where
    t: "dep_start (completed st) (dependencies j) 0 = Some t"
    and cs: "map_of chrom (job_id j) = Some cs" "cs \<noteq> []"
    and ev: "eval_chunks j t (sort_key chunk_order cs) st = Inr (st1, t1)"
    and st': "st' = st1\<lparr>completed := (completed st1)(job_id j \<mapsto> t1)\<rparr>"
    by (auto simp: eval_job_def Let_def split: option.splits if_splits sum.splits)
  from eval_chunks_run[OF ev assms(2)] obtain ps where ps: "chained t ps"
    "map (\<lambda>p. snd (snd (snd p))) ps = map chunk_size (sort_key chunk_order cs)"
    "length (m_scheds st1) = 3" "completed st1 = completed st"
    "t1 = (if ps = [] then t else fst (snd (snd (last ps))))"
    "\<forall>m < 3. m_scheds st1 ! m = m_scheds st ! m @ on_machine j m ps"
    by blast
  have "length ps = length cs" using ps(2) by (metis length_map length_sort)
  then have ne: "ps \<noteq> []" using cs(2) by auto
  show ?thesis
    by (intro exI[of _ t] exI[of _ ps] exI[of _ cs])
       (use ps ne cs(1) dep_start_bound[OF t] st' in auto)
qed


lemma steady_of_chunks:
  assumes "steady_chunks cs" "map (\<lambda>p. snd (snd (snd p))) ps = map chunk_size (sort_key chunk_order cs)"
  shows "steady ps"
proof -
  have len: "length ps = length cs" using assms(2) by (metis length_map length_sort)
  have "(\<lambda>p. snd (snd (snd p))) ` set ps = chunk_size ` set cs"
    using assms(2) by (metis set_map set_sort)
  then have "\<forall>p \<in> set ps. \<exists>c \<in> set cs. snd (snd (snd p)) = chunk_size c" by blast
  then show ?thesis using assms(1) len unfolding steady_def steady_chunks_def by fastforce
qed

lemma entries_extended:
  assumes "length s1 = 3" "length s = 3" "\<forall>m < 3. s1 ! m = s ! m @ on_machine j m ps"
    and "q \<in> entries s1"
  shows "q \<in> entries s \<or> (\<exists>m. q \<in> set (on_machine j m ps))"
proof -
  from assms(4) obtain m where m: "m < length s1" "q \<in> set (s1 ! m)" using entries_obtain by blast
  then have "q \<in> set (s ! m) \<or> q \<in> set (on_machine j m ps)" using assms(1,3) by auto
  then show ?thesis using entries_nth m(1) assms(1,2) by metis
qed

lemma on_machine_end:
  "q \<in> set (on_machine j m ps) \<Longrightarrow> \<exists>p \<in> set ps. placed_end q = fst (snd (snd p))"
proof -
  assume "q \<in> set (on_machine j m ps)"
  then obtain p where p: "p \<in> set ps" "q = (case p of (_, s, e, z) \<Rightarrow> (j, s, e, z))"
    by (auto simp: on_machine_def)
  have "placed_end q = fst (snd (snd p))"
    using p(2) by (simp add: placed_end_def split: prod.splits)
  with p(1) show ?thesis by blast
qed

lemma eval_jobs_run:
  "eval_jobs chrom js st = Inr (Some st') \<Longrightarrow> length (m_scheds st) = 3 \<Longrightarrow>
   (strict \<Longrightarrow> steady_chromosome chrom \<and> distinct (map job_id js) \<and> job_id ` set js \<inter> P = {}
       \<and> dom (completed st) = P
       \<and> (\<forall>q \<in> entries (m_scheds st). job_id (fst q) \<in> P)
       \<and> (\<forall>q \<in> entries (m_scheds st). \<forall>c. completed st (job_id (fst q)) = Some c
              \<longrightarrow> placed_end q \<le> c)) \<Longrightarrow>
   run strict P js (m_scheds st) (m_scheds st')"
proof (induction js arbitrary: st P)
  case Nil
  then show ?case by (simp add: run_Nil)
next
  case (Cons j js)
  from Cons.prems(1) obtain st1 where a: "eval_job chrom j st = Inr (Some st1)"
    and b: "eval_jobs chrom js st1 = Inr (Some st')"
    by (auto split: sum.splits option.splits)
  from eval_job_run[OF a Cons.prems(2)] obtain t ps cs where s: "chained t ps" "ps \<noteq> []"
    "map_of chrom (job_id j) = Some cs"
    "map (\<lambda>p. snd (snd (snd p))) ps = map chunk_size (sort_key chunk_order cs)"
    "\<forall>d \<in> set (dependencies j). \<exists>c. completed st d = Some c \<and> c \<le> t"
    "length (m_scheds st1) = 3"
    "completed st1 = (completed st)(job_id j \<mapsto> fst (snd (snd (last ps))))"
    "\<forall>m < 3. m_scheds st1 ! m = m_scheds st ! m @ on_machine j m ps"
    by blast
  let ?P = "insert (job_id j) P"
  have strict1: "steady ps \<and> set (dependencies j) \<subseteq> P
      \<and> (\<forall>q \<in> entries (m_scheds st). job_id (fst q) \<in> set (dependencies j) \<longrightarrow> placed_end q \<le> t)"
    if strict
  proof -
    note h = Cons.prems(3)[OF that]
    have "(job_id j, cs) \<in> set chrom" using s(3) by (rule map_of_SomeD)
    then have "steady_chunks cs" using h by (auto simp: steady_chromosome_def)
    then have 1: "steady ps" using s(4) by (rule steady_of_chunks)
    have 2: "set (dependencies j) \<subseteq> P" using s(5) h by auto
    have 3: "placed_end q \<le> t"
      if "q \<in> entries (m_scheds st)" "job_id (fst q) \<in> set (dependencies j)" for q
    proof -
      from s(5) that(2) obtain c where c: "completed st (job_id (fst q)) = Some c" "c \<le> t" by blast
      then have "placed_end q \<le> c" using h that(1) by blast
      then show ?thesis using c(2) by simp
    qed
    from 1 2 3 show ?thesis by blast
  qed
  have strict2: "steady_chromosome chrom \<and> distinct (map job_id js) \<and> job_id ` set js \<inter> ?P = {}
       \<and> dom (completed st1) = ?P
       \<and> (\<forall>q \<in> entries (m_scheds st1). job_id (fst q) \<in> ?P)
       \<and> (\<forall>q \<in> entries (m_scheds st1). \<forall>c. completed st1 (job_id (fst q)) = Some c
              \<longrightarrow> placed_end q \<le> c)"
    if strict
  proof -
    note h = Cons.prems(3)[OF that]
    have jP: "job_id j \<notin> P" using h by auto
    have st: "steady ps" using strict1[OF that] by simp
    have split: "q \<in> entries (m_scheds st) \<or> (\<exists>m. q \<in> set (on_machine j m ps))"
      if "q \<in> entries (m_scheds st1)" for q
      using entries_extended[OF s(6) Cons.prems(2) s(8) that] .
    have 1: "job_id (fst q) \<in> ?P" if "q \<in> entries (m_scheds st1)" for q
    proof -
      from split[OF that] show ?thesis
      proof
        assume "q \<in> entries (m_scheds st)"
        then show ?thesis using h by blast
      next
        assume "\<exists>m. q \<in> set (on_machine j m ps)"
        then have "fst q = j" using on_machine_fst by blast
        then show ?thesis by simp
      qed
    qed
    have 2: "placed_end q \<le> c"
      if q: "q \<in> entries (m_scheds st1)" and c: "completed st1 (job_id (fst q)) = Some c" for q c
    proof (cases "job_id (fst q) = job_id j")
      case True
      then have "q \<notin> entries (m_scheds st)" using h jP by auto
      then obtain m where "q \<in> set (on_machine j m ps)" using split[OF q] by blast
      then obtain p where p: "p \<in> set ps" "placed_end q = fst (snd (snd p))"
        using on_machine_end by blast
      have "c = fst (snd (snd (last ps)))" using c True s(7) by simp
      then show ?thesis using chained_ends[OF s(1) st s(2)] p by simp
    next
      case False
      then have "q \<in> entries (m_scheds st)" using split[OF q] on_machine_fst by metis
      moreover have "completed st (job_id (fst q)) = Some c" using c False s(7) by simp
      ultimately show ?thesis using h by blast
    qed
    have 3: "dom (completed st1) = ?P" using s(7) h by auto
    from h 1 2 3 show ?thesis by auto
  qed
  from Cons.IH[OF b s(6) strict2]
  have r: "run strict ?P js (m_scheds st1) (m_scheds st')" by simp
  show ?case
    by (rule run_Cons[OF s(1) _ _ _ r]) (use s strict1 Cons.prems(2) in auto)
qed

section \<open>Verification: the schedules of both solvers\<close>

lemma entries_empty: "entries [[], [], []] = {}" "entries (replicate n []) = {}"
  by (auto simp: entries_def)

lemma run_chained_jobs:
  assumes "run strict {} ordr s s'" "distinct (map job_id ordr)" "entries s = {}"
  shows "chained_jobs ordr s'"
proof -
  from run_frame[OF assms(1,2)] assms(3)
  have "length s' = length s" "\<forall>q \<in> entries s'. fst q \<in> set ordr"
    "\<forall>j \<in> set ordr. \<exists>t ps. chained t ps
        \<and> (\<forall>m < length s. chunks_of (job_id j) (s' ! m) = on_machine j m ps)"
    by auto
  then show ?thesis by (simp add: chained_jobs_def)
qed

lemma run_after_all:
  assumes "run True {} ordr s s'" "distinct (map job_id ordr)" "entries s = {}"
  shows "after_dependencies s'"
proof -
  from run_frame[OF assms(1,2)] assms(3)
  have mem: "\<forall>q \<in> entries s'. fst q \<in> set ordr" by auto
  from run_after_dependencies[OF assms(1,2)] assms(3) mem
  show ?thesis unfolding after_dependencies_def by blast
qed

lemma bt_schedule_properties:
  assumes "bt_topological_sort limit jobs = Inr (Some ordr)" "schedule_jobs ordr bt_init = Inr st"
  shows "chained_jobs ordr (machine_schedules st)" "after_dependencies (machine_schedules st)"
proof -
  from bt_topological_sort_ordered[OF assms(1)]
  have d: "distinct (map job_id ordr)" and o: "ordered_after {} ordr" by simp_all
  have len: "length (machine_schedules bt_init) = 3" by (simp add: bt_init_def)
  have e: "entries (machine_schedules bt_init) = {}" by (simp add: bt_init_def entries_empty)
  from schedule_jobs_run[OF assms(2) len o]
  have r: "run True {} ordr (machine_schedules bt_init) (machine_schedules st)" .
  show "chained_jobs ordr (machine_schedules st)" by (rule run_chained_jobs[OF r d e])
  show "after_dependencies (machine_schedules st)" by (rule run_after_all[OF r d e])
qed

lemma evaluate_run:
  assumes "evaluate_chromosome jd chrom ordr = Inr (Some (f, scheds, viols))"
    and "strict \<Longrightarrow> steady_chromosome chrom \<and> distinct (map job_id ordr)"
  shows "run strict {} ordr (m_scheds eval_init) scheds"
proof -
  from assms(1) obtain st where st: "eval_jobs chrom ordr eval_init = Inr (Some st)"
    and s: "scheds = m_scheds st"
    by (auto simp: evaluate_chromosome_def split: sum.splits bool.splits option.splits)
  have len: "length (m_scheds eval_init) = 3" by (simp add: eval_init_def NUM_MACHINES_def)
  have e: "entries (m_scheds eval_init) = {}" by (simp add: eval_init_def entries_empty)
  have c: "dom (completed eval_init) = {}" by (simp add: eval_init_def)
  show ?thesis unfolding s
    by (rule eval_jobs_run[OF st len]) (use assms(2) e c in auto)
qed

lemma evaluate_properties:
  assumes "evaluate_chromosome jd chrom ordr = Inr (Some (f, scheds, viols))"
    and "distinct (map job_id ordr)"
  shows "chained_jobs ordr scheds" "steady_chromosome chrom \<Longrightarrow> after_dependencies scheds"
proof -
  have e: "entries (m_scheds eval_init) = {}" by (simp add: eval_init_def entries_empty)
  have "run False {} ordr (m_scheds eval_init) scheds"
    by (rule evaluate_run[OF assms(1)]) simp
  then show "chained_jobs ordr scheds" using assms(2) e by (rule run_chained_jobs)
  assume "steady_chromosome chrom"
  then have "run True {} ordr (m_scheds eval_init) scheds"
    using assms(2) by (intro evaluate_run[OF assms(1)]) simp
  then show "after_dependencies scheds" using assms(2) e by (rule run_after_all)
qed

lemma bt_solve_success_cases:
  assumes "bt_solve limit jobs = Inr r" "success r"
  shows "\<exists>ordr st. bt_topological_sort limit jobs = Inr (Some ordr)
           \<and> schedule_jobs ordr bt_init = Inr st
           \<and> schedule r = build_final raw_start (machine_schedules st)"
  using assms
  by (auto simp: bt_solve_def create_capacity_error_result_def create_error_result_def Let_def
      split: option.splits sum.splits list.splits prod.splits simp del: schedule_jobs.simps)





lemma set_dict_set: "set (dict_set d k v) \<subseteq> insert (k, v) (set d)"
proof (induction d)
  case Nil
  then show ?case by simp
next
  case (Cons x d)
  obtain a b where x: "x = (a, b)" by (cases x)
  show ?case using Cons.IH unfolding x by (cases "a = k") auto
qed

lemma intelligent_split_steady:
  assumes "create_intelligent_split ms j = Inr chunks" "0 < duration j"
  shows "steady_chunks chunks"
proof -
  from assms(1) obtain sizes where fs: "final_sizes (duration j) = Inr sizes"
    and ch: "chunks = map (\<lambda>i. \<lparr>chunk_machine = ms ! (i mod NUM_MACHINES),
                                  chunk_size = sizes ! i, chunk_order = int i\<rparr>) [0..<length sizes]"
    by (auto simp: create_intelligent_split_def Let_def split: sum.splits if_splits)
  have "\<forall>z \<in> set sizes. 0 \<le> z" using final_sizes_nonneg[OF assms(2) fs] .
  then have "\<forall>c \<in> set chunks. 0 \<le> chunk_size c" unfolding ch by auto
  then show ?thesis by (simp add: steady_chunks_def)
qed

lemma smart_chromosome_steady:
  "create_smart_chromosome pick shuffled js chrom0 = Inr chrom \<Longrightarrow> steady_chromosome chrom0 \<Longrightarrow>
   steady_chromosome chrom"
proof (induction js arbitrary: chrom0)
  case Nil
  then show ?case by simp
next
  case (Cons j js)
  show ?case
  proof (cases "duration j \<le> MAX_CHUNK_SIZE")
    case True
    let ?c = "dict_set chrom0 (job_id j)
             [\<lparr>chunk_machine = pick j, chunk_size = duration j, chunk_order = 0\<rparr>]"
    have r: "create_smart_chromosome pick shuffled js ?c = Inr chrom" using Cons.prems(1) True by simp
    have "steady_chromosome ?c"
      using Cons.prems(2) set_dict_set[of chrom0 "job_id j"]
      unfolding steady_chromosome_def steady_chunks_def by fastforce
    from Cons.IH[OF r this] show ?thesis .
  next
    case False
    with Cons.prems(1) obtain chunks where sp: "create_intelligent_split (shuffled j) j = Inr chunks"
      and r: "create_smart_chromosome pick shuffled js (dict_set chrom0 (job_id j) chunks) = Inr chrom"
      by (auto split: sum.splits)
    have "0 < duration j" using False by (simp add: MAX_CHUNK_SIZE_def)
    from intelligent_split_steady[OF sp this] have "steady_chunks chunks" .
    then have "steady_chromosome (dict_set chrom0 (job_id j) chunks)"
      using Cons.prems(2) set_dict_set[of chrom0 "job_id j" chunks]
      unfolding steady_chromosome_def by fastforce
    from Cons.IH[OF r this] show ?thesis .
  qed
qed

lemma init_population_steady:
  "init_population pick shuffled ordr ks = Inr pop \<Longrightarrow> \<forall>c \<in> set pop. steady_chromosome c"
proof (induction ks arbitrary: pop)
  case Nil
  then show ?case by simp
next
  case (Cons k ks)
  from Cons.prems obtain c rest where c: "create_smart_chromosome (pick k) (shuffled k) ordr [] = Inr c"
    and rest: "init_population pick shuffled ordr ks = Inr rest" and pop: "pop = c # rest"
    by (auto split: sum.splits)
  have "steady_chromosome c"
    by (rule smart_chromosome_steady[OF c]) (simp add: steady_chromosome_def)
  with Cons.IH[OF rest] pop show ?case by simp
qed






text \<open>
  Claim C5, as the code has it. In the machine timelines from which a successful result
  of the greedy scheduler is built, no chunk of a job starts before the end of any chunk
  of a job it depends on. The same holds for the timelines the schedule evaluator
  returns for a feasible chromosome (in the order of the dependency search), provided
  that in the chromosome every job's chunk list is a single chunk or has no negative
  chunk size; every chromosome of the initial population is of this kind. In
  particular, when job B depends on job A, both of duration 5, B's chunk starts at 5 or
  later on whatever machine it is placed.
\<close>

theorem chunks_after_dependencies:
  "(bt_solve limit jobs = Inr r \<and> success r \<longrightarrow>
      (\<exists>ordr st. bt_topological_sort limit jobs = Inr (Some ordr)
         \<and> schedule_jobs ordr bt_init = Inr st
         \<and> schedule r = build_final raw_start (machine_schedules st)
         \<and> after_dependencies (machine_schedules st)))
   \<and> (ca_topological_sort limit jobs = Inr (Some ordr)
        \<and> evaluate_chromosome jd chrom ordr = Inr (Some (f, scheds, viols))
        \<and> steady_chromosome chrom \<longrightarrow> after_dependencies scheds)
   \<and> (init_population pick shuffled ordr ks = Inr pop \<longrightarrow> (\<forall>c \<in> set pop. steady_chromosome c))"
proof (intro conjI impI)
  assume "bt_solve limit jobs = Inr r \<and> success r"
  then obtain ordr st where o: "bt_topological_sort limit jobs = Inr (Some ordr)"
    "schedule_jobs ordr bt_init = Inr st"
    "schedule r = build_final raw_start (machine_schedules st)"
    using bt_solve_success_cases by blast
  with bt_schedule_properties(2)[OF o(1,2)]
  show "\<exists>ordr st. bt_topological_sort limit jobs = Inr (Some ordr)
         \<and> schedule_jobs ordr bt_init = Inr st
         \<and> schedule r = build_final raw_start (machine_schedules st)
         \<and> after_dependencies (machine_schedules st)" by blast
next
  assume a: "ca_topological_sort limit jobs = Inr (Some ordr)
        \<and> evaluate_chromosome jd chrom ordr = Inr (Some (f, scheds, viols))
        \<and> steady_chromosome chrom"
  then have d: "distinct (map job_id ordr)" using ca_topological_sort_distinct by blast
  from a evaluate_properties(2)[OF _ d] show "after_dependencies scheds" by blast
next
  assume "init_population pick shuffled ordr ks = Inr pop"
  then show "\<forall>c \<in> set pop. steady_chromosome c" by (rule init_population_steady)
qed

theorem chunks_after_dependencies_witness:
  "\<exists>r st. bt_solve 1000
         [\<lparr>job_id = 1, job_name = ''A'', duration = 5, dependencies = [], min_chunk_size = 1\<rparr>,
          \<lparr>job_id = 2, job_name = ''B'', duration = 5, dependencies = [1], min_chunk_size = 1\<rparr>] = Inr r
     \<and> success r
     \<and> schedule_jobs
         [\<lparr>job_id = 1, job_name = ''A'', duration = 5, dependencies = [], min_chunk_size = 1\<rparr>,
          \<lparr>job_id = 2, job_name = ''B'', duration = 5, dependencies = [1], min_chunk_size = 1\<rparr>]
         bt_init = Inr st
     \<and> machine_schedules st =
         [[(\<lparr>job_id = 1, job_name = ''A'', duration = 5, dependencies = [], min_chunk_size = 1\<rparr>, 0, 5, 5)],
          [(\<lparr>job_id = 2, job_name = ''B'', duration = 5, dependencies = [1], min_chunk_size = 1\<rparr>, 5, 10, 5)],
          []]
     \<and> after_dependencies (machine_schedules st)
     \<and> steady_chromosome
          [(1, [\<lparr>chunk_machine = 0, chunk_size = 5, chunk_order = 0\<rparr>]),
           (2, [\<lparr>chunk_machine = 0, chunk_size = 5, chunk_order = 0\<rparr>])]
     \<and> after_dependencies
         [[(\<lparr>job_id = 1, job_name = ''A'', duration = 5, dependencies = [], min_chunk_size = 1\<rparr>, 0, 5, 5),
           (\<lparr>job_id = 2, job_name = ''B'', duration = 5, dependencies = [1], min_chunk_size = 1\<rparr>, 5, 10, 5)],
          [], []]"
proof -
  let ?A = "\<lparr>job_id = 1, job_name = ''A'', duration = 5, dependencies = [], min_chunk_size = 1\<rparr>"
  let ?B = "\<lparr>job_id = 2, job_name = ''B'', duration = 5, dependencies = [1], min_chunk_size = 1\<rparr>"
  let ?chrom = "[(1::int, [\<lparr>chunk_machine = 0, chunk_size = 5, chunk_order = 0\<rparr>]),
           (2, [\<lparr>chunk_machine = 0, chunk_size = 5, chunk_order = 0\<rparr>])]"
  let ?st = "\<lparr>machine_times = [5, 10, 0],
      machine_schedules = [[(?A, 0, 5, 5)], [(?B, 5, 10, 5)], []], bt_violations = []\<rparr>"
  let ?S = "[[(?A, 0, 5, 5), (?B, 5, 10, 5)], [], []] :: placed list list"
  have cap: "capacity_check [?A, ?B] = None"
    by (simp add: capacity_check_def FIXED_MACHINE_CAPACITY_def)
  have "bt_topological_sort (Suc (Suc k)) [?A, ?B] = Inr (Some [?A, ?B])" for k
    by (simp add: bt_topological_sort_def job_dict_def dfs_init_def)
  from this[of 998] have topo: "bt_topological_sort 1000 [?A, ?B] = Inr (Some [?A, ?B])" by simp
  have "ca_topological_sort (Suc (Suc k)) [?A, ?B] = Inr (Some [?A, ?B])" for k
    by (simp add: ca_topological_sort_def job_dict_def dfs_init_def)
  from this[of 998] have ctopo: "ca_topological_sort 1000 [?A, ?B] = Inr (Some [?A, ?B])" by simp
  have sched: "schedule_jobs [?A, ?B] bt_init = Inr ?st"
    by (simp add: schedule_job_def place_def min_machine_3 earliest_start_def bt_init_def
        MAX_CHUNK_SIZE_def FIXED_MACHINE_CAPACITY_def)
  note solve = bt_solve_success[OF cap topo sched]
  from chunks_after_dependencies[THEN conjunct1, rule_format, OF conjI[OF solve]]
  obtain ordr st where o: "bt_topological_sort 1000 [?A, ?B] = Inr (Some ordr)"
    "schedule_jobs ordr bt_init = Inr st" "after_dependencies (machine_schedules st)"
    by auto
  have st: "st = ?st" using o(1,2) topo sched by simp
  have pop: "init_population (\<lambda>_ _. 0) (\<lambda>_ _. [0, 1, 2]) [?A, ?B] [0] = Inr [?chrom]"
    by (simp add: MAX_CHUNK_SIZE_def)
  from chunks_after_dependencies[THEN conjunct2, THEN conjunct2, rule_format, OF pop]
  have steady: "steady_chromosome ?chrom" by simp
  have "\<exists>f. evaluate_chromosome (job_dict [?A, ?B]) ?chrom [?A, ?B] = Inr (Some (f, ?S, []))"
    by (simp add: evaluate_chromosome_def job_dict_def MAX_CHUNK_SIZE_def eval_job_def
        eval_chunk_def eval_init_def NUM_MACHINES_def FIXED_MACHINE_CAPACITY_def eval_nat_numeral)
  then obtain f where ev: "evaluate_chromosome (job_dict [?A, ?B]) ?chrom [?A, ?B] = Inr (Some (f, ?S, []))"
    by blast
  from chunks_after_dependencies[THEN conjunct2, THEN conjunct1, rule_format,
      OF conjI[OF ctopo conjI[OF ev steady]]]
  have after: "after_dependencies ?S" .
  show ?thesis
    by (intro exI[of _ "projr (bt_solve 1000 [?A, ?B])"] exI[of _ ?st])
       (use solve sched o(3) st steady after in simp)
qed

text \<open>
  Without the proviso the evaluator breaks the claim: it accepts a chromosome that
  splits job A of duration 1 into chunks of sizes 5 and -4 (their sum is 1, neither
  exceeds 5), records A as completed at time 1, and starts the chunk of the dependent
  job B at time 1, before A's first chunk ends at time 5.
\<close>

theorem negative_chunk_counterexample:
  "map_sum id (map_option (fst \<circ> snd))
     (evaluate_chromosome
        (job_dict
           [\<lparr>job_id = 1, job_name = ''A'', duration = 1, dependencies = [], min_chunk_size = 1\<rparr>,
            \<lparr>job_id = 2, job_name = ''B'', duration = 5, dependencies = [1], min_chunk_size = 1\<rparr>])
        [(1, [\<lparr>chunk_machine = 0, chunk_size = 5, chunk_order = 0\<rparr>,
              \<lparr>chunk_machine = 1, chunk_size = - 4, chunk_order = 1\<rparr>]),
         (2, [\<lparr>chunk_machine = 2, chunk_size = 5, chunk_order = 0\<rparr>])]
        [\<lparr>job_id = 1, job_name = ''A'', duration = 1, dependencies = [], min_chunk_size = 1\<rparr>,
         \<lparr>job_id = 2, job_name = ''B'', duration = 5, dependencies = [1], min_chunk_size = 1\<rparr>])
   = Inr (Some
       [[(\<lparr>job_id = 1, job_name = ''A'', duration = 1, dependencies = [], min_chunk_size = 1\<rparr>, 0, 5, 5)],
        [(\<lparr>job_id = 1, job_name = ''A'', duration = 1, dependencies = [], min_chunk_size = 1\<rparr>, 5, 1, - 4)],
        [(\<lparr>job_id = 2, job_name = ''B'', duration = 5, dependencies = [1], min_chunk_size = 1\<rparr>, 1, 6, 5)]])
   \<and> \<not> after_dependencies
       [[(\<lparr>job_id = 1, job_name = ''A'', duration = 1, dependencies = [], min_chunk_size = 1\<rparr>, 0, 5, 5)],
        [(\<lparr>job_id = 1, job_name = ''A'', duration = 1, dependencies = [], min_chunk_size = 1\<rparr>, 5, 1, - 4)],
        [(\<lparr>job_id = 2, job_name = ''B'', duration = 5, dependencies = [1], min_chunk_size = 1\<rparr>, 1, 6, 5)]]"
proof -
  let ?A = "\<lparr>job_id = 1, job_name = ''A'', duration = 1, dependencies = [], min_chunk_size = 1\<rparr>"
  let ?B = "\<lparr>job_id = 2, job_name = ''B'', duration = 5, dependencies = [1], min_chunk_size = 1\<rparr>"
  let ?S = "[[(?A, 0, 5, 5)], [(?A, 5, 1, - 4)], [(?B, 1, 6, 5)]] :: placed list list"
  have ev: "map_sum id (map_option (fst \<circ> snd))
     (evaluate_chromosome (job_dict [?A, ?B])
        [(1, [\<lparr>chunk_machine = 0, chunk_size = 5, chunk_order = 0\<rparr>,
              \<lparr>chunk_machine = 1, chunk_size = - 4, chunk_order = 1\<rparr>]),
         (2, [\<lparr>chunk_machine = 2, chunk_size = 5, chunk_order = 0\<rparr>])]
        [?A, ?B]) = Inr (Some ?S)"
    by (simp add: evaluate_chromosome_def job_dict_def MAX_CHUNK_SIZE_def eval_job_def
        eval_chunk_def eval_init_def NUM_MACHINES_def FIXED_MACHINE_CAPACITY_def eval_nat_numeral)
  have "(?B, 1, 6, 5) \<in> entries ?S" "(?A, 0, 5, 5) \<in> entries ?S" by (simp_all add: entries_def)
  moreover have "job_id (fst (?A, 0::int, 5::int, 5::int)) \<in> set (dependencies (fst (?B, 1::int, 6::int, 5::int)))"
    by simp
  moreover have "\<not> placed_end (?A, 0, 5, 5) \<le> placed_start (?B, 1, 6, 5)"
    by (simp add: placed_end_def placed_start_def)
  ultimately have "\<not> after_dependencies ?S" unfolding after_dependencies_def by blast
  with ev show ?thesis by blast
qed



end
